theory Spec2Isabelle
  imports Main "HOL-Library.Word"
begin

section \<open>The connection pool of ConnectPool.cpp\<close>

text \<open>
  The class \<open>ConnectionPool\<close> hands out at most \<open>poolSize\<close> connections to
  concurrent callers. Every method body that changes the pool runs under the one mutex
  \<open>mt_\<close>, so the first part of this theory models each method as a function on the
  pool's data members (what one critical section computes); the second part models
  threads statement by statement, with the mutex and the condition variable explicit.

  The members \<open>connections_\<close>, \<open>connectionsAlive_\<close>, \<open>free_\<close> and
  \<open>poolSize_\<close> are written without the trailing underscore, which an Isabelle name
  cannot end with.
\<close>

subsection \<open>Data\<close>

type_synonym size_t = "64 word"

text \<open>\<open>struct FakeConnection { int id; }\<close>; the field is renamed because \<open>id\<close> is
  the identity function of HOL.\<close>

record FakeConnection =
  conn_id :: int

text \<open>
  A \<open>ConnectionPtr\<close> is a \<open>std::shared_ptr<FakeConnection>\<close>: either null
  (\<open>None\<close>) or the address of an object. The objects live in a store that only grows
  (the pool never destroys a connection): the address of an object is its index.
\<close>

type_synonym ConnectionPtr = "nat option"

type_synonym heap = "FakeConnection list"

record ConnectionPool =
  connections :: "ConnectionPtr list"
  connectionsAlive :: size_t
  free :: size_t
  poolSize :: size_t

text \<open>What a call can end in: \<open>std::stoi\<close> throws one of two exceptions.\<close>

datatype error = invalid_argument | out_of_range

text \<open>
  The outcome of a call that may wait: \<open>Blocked\<close> when the predicate of
  \<open>cv_.wait\<close> is false (the call does not return in this state), \<open>Threw\<close> when an
  exception leaves the method, \<open>Returned\<close> otherwise.
\<close>

datatype 'a outcome = Blocked | Threw error | Returned 'a

subsection \<open>\<open>std::stoi\<close> and \<open>std::make_shared\<close>\<close>

text \<open>
  \<open>std::stoi(str)\<close> is \<open>strtol\<close> in base 10 on the string: leading white space is
  skipped, one sign is accepted, then the longest run of decimal digits is read.
  No digit: \<open>std::invalid_argument\<close>. A value outside \<open>int\<close>: \<open>std::out_of_range\<close>.
\<close>

definition isspace_c :: "char \<Rightarrow> bool" where
  "isspace_c c = ((of_char c :: nat) = 32 \<or> (9 \<le> (of_char c :: nat) \<and> (of_char c :: nat) \<le> 13))"

definition isdigit_c :: "char \<Rightarrow> bool" where
  "isdigit_c c = (48 \<le> (of_char c :: nat) \<and> (of_char c :: nat) \<le> 57)"

definition digits_value :: "string \<Rightarrow> int" where
  "digits_value ds = foldl (\<lambda>acc c. acc * 10 + (int (of_char c) - 48)) 0 ds"

definition INT_MAX :: int where
  "INT_MAX = 2147483647"

definition INT_MIN :: int where
  "INT_MIN = - 2147483648"

definition stoi :: "string \<Rightarrow> error + int" where
  "stoi str =
     (let s = dropWhile isspace_c str;
          neg = (s \<noteq> [] \<and> hd s = CHR ''-'');
          s1 = (if s \<noteq> [] \<and> (hd s = CHR ''-'' \<or> hd s = CHR ''+'') then tl s else s);
          ds = takeWhile isdigit_c s1
      in if ds = [] then Inl invalid_argument
         else let v = (if neg then - digits_value ds else digits_value ds)
              in if v < INT_MIN \<or> INT_MAX < v then Inl out_of_range else Inr v)"

text \<open>\<open>std::make_shared<FakeConnection>(id)\<close>: a new object at a fresh address.\<close>

definition make_shared :: "int \<Rightarrow> heap \<Rightarrow> ConnectionPtr \<times> heap" where
  "make_shared i h = (Some (length h), h @ [\<lparr>conn_id = i\<rparr>])"

text \<open>
  The move constructor of \<open>shared_ptr\<close>, as \<open>push_back(std::move(connection))\<close>
  uses it: the new pointer takes the value, the source is left null.
\<close>

definition move_ptr :: "ConnectionPtr \<Rightarrow> ConnectionPtr \<times> ConnectionPtr" where
  "move_ptr src = (src, None)"

subsection \<open>The methods\<close>

text \<open>The constructor: \<open>poolSize_(poolSize), free_(poolSize)\<close>, \<open>connectionsAlive_ = 0\<close>
  and an empty vector. It has no \<open>throw\<close> and no check of its argument.\<close>

definition ConnectionPool_init :: "size_t \<Rightarrow> ConnectionPool" where
  "ConnectionPool_init n =
     \<lparr>connections = [], connectionsAlive = 0, free = n, poolSize = n\<rparr>"

definition ConnectionPool_ctor :: "size_t \<Rightarrow> error + ConnectionPool" where
  "ConnectionPool_ctor n = Inr (ConnectionPool_init n)"

definition PoolSize :: "ConnectionPool \<Rightarrow> size_t" where
  "PoolSize p = poolSize p"

definition ConnectionsAlive :: "ConnectionPool \<Rightarrow> size_t" where
  "ConnectionsAlive p = connectionsAlive p"

definition ConnectionsInUse :: "ConnectionPool \<Rightarrow> size_t" where
  "ConnectionsInUse p = poolSize p - free p"

text \<open>
  \<open>GetConnection\<close>, from the moment the wait's predicate \<open>free_ > 0\<close> is evaluated
  under the lock. The decrement of \<open>free_\<close> comes before the factory step, and nothing
  catches what \<open>stoi\<close> throws: the lock is released by unwinding, the pool is left as
  it is at the throw.
\<close>

definition GetConnection ::
  "string \<Rightarrow> ConnectionPool \<Rightarrow> heap \<Rightarrow> ConnectionPtr outcome \<times> ConnectionPool \<times> heap" where
  "GetConnection threadId p h =
     (if \<not> 0 < free p then (Blocked, p, h)
      else
        let p1 = p\<lparr>free := free p - 1\<rparr> in
        if length (connections p1) = 0 then
          (case stoi threadId of
             Inl e \<Rightarrow> (Threw e, p1, h)
           | Inr i \<Rightarrow>
               let (NewPtr, h1) = make_shared i h
               in (Returned NewPtr, p1\<lparr>connectionsAlive := connectionsAlive p1 + 1\<rparr>, h1))
        else
          let FreePtr = last (connections p1)
          in (Returned FreePtr, p1\<lparr>connections := butlast (connections p1)\<rparr>, h))"

text \<open>
  \<open>FreeConnection(ConnectionPtr& connection)\<close>: the result is the caller's variable
  after the call and the pool after the call. (The call to \<open>cv_.notify_one()\<close> acts on
  the condition variable, which is part of the thread-level model below.)
\<close>

definition FreeConnection :: "ConnectionPtr \<Rightarrow> ConnectionPool \<Rightarrow> ConnectionPtr \<times> ConnectionPool" where
  "FreeConnection connection p =
     (let (moved, connection') = move_ptr connection;
          p1 = p\<lparr>connections := connections p @ [moved]\<rparr>;
          p2 = p1\<lparr>free := free p1 + 1\<rparr>
      in (connection', p2))"

subsection \<open>Sequences of calls\<close>

text \<open>
  Any call a client can make on a pool, in any order and with any argument (also a null
  or foreign handle given to \<open>FreeConnection\<close>). A call to \<open>GetConnection\<close> whose
  wait cannot end leaves the pool as it is. The accessors are \<open>const\<close> methods.
\<close>

datatype call =
    CallGetConnection string
  | CallFreeConnection ConnectionPtr
  | CallPoolSize
  | CallConnectionsAlive
  | CallConnectionsInUse

fun exec_call :: "call \<Rightarrow> ConnectionPool \<times> heap \<Rightarrow> ConnectionPool \<times> heap" where
  "exec_call (CallGetConnection threadId) (p, h) = snd (GetConnection threadId p h)"
| "exec_call (CallFreeConnection c) (p, h) = (snd (FreeConnection c p), h)"
| "exec_call CallPoolSize (p, h) = (p, h)"
| "exec_call CallConnectionsAlive (p, h) = (p, h)"
| "exec_call CallConnectionsInUse (p, h) = (p, h)"

fun exec_calls :: "call list \<Rightarrow> ConnectionPool \<times> heap \<Rightarrow> ConnectionPool \<times> heap" where
  "exec_calls [] s = s"
| "exec_calls (c # cs) s = exec_calls cs (exec_call c s)"

subsection \<open>Correct usage\<close>

text \<open>
  The clients of a pool, as \<open>ThreadFunc\<close> uses it: a handle obtained from
  \<open>GetConnection\<close> is held until it is given to \<open>FreeConnection\<close>, once. \<open>held\<close>
  lists the handles that are checked out; \<open>Release i\<close> gives back the \<open>i\<close>-th of
  them, after which the caller's variable is null and no longer counts as held.
\<close>

record world =
  pool :: ConnectionPool
  store :: heap
  held :: "ConnectionPtr list"

datatype usage = Acquire string | Release nat

definition new_world :: "size_t \<Rightarrow> world" where
  "new_world n = \<lparr>pool = ConnectionPool_init n, store = [], held = []\<rparr>"

fun use :: "usage \<Rightarrow> world \<Rightarrow> world" where
  "use (Acquire threadId) w =
     (case GetConnection threadId (pool w) (store w) of
        (Blocked, p', h') \<Rightarrow> w
      | (Threw e, p', h') \<Rightarrow> w\<lparr>pool := p', store := h'\<rparr>
      | (Returned c, p', h') \<Rightarrow> w\<lparr>pool := p', store := h', held := held w @ [c]\<rparr>)"
| "use (Release i) w =
     (if i < length (held w)
      then w\<lparr>pool := snd (FreeConnection (held w ! i) (pool w)),
             held := take i (held w) @ drop (Suc i) (held w)\<rparr>
      else w)"

fun uses :: "usage list \<Rightarrow> world \<Rightarrow> world" where
  "uses [] w = w"
| "uses (u # us) w = uses us (use u w)"

text \<open>The calls of a usage that create a connection need a thread id that \<open>stoi\<close> reads.\<close>

fun parses :: "usage \<Rightarrow> bool" where
  "parses (Acquire threadId) = (case stoi threadId of Inl e \<Rightarrow> False | Inr i \<Rightarrow> True)"
| "parses (Release i) = True"

text \<open>The bookkeeping invariant that every sequence of calls keeps: the slots that are
  free beyond the idle connections, and the connections alive, fit in the capacity.\<close>

definition pool_inv :: "ConnectionPool \<Rightarrow> bool" where
  "pool_inv p =
     (unat (connectionsAlive p) + unat (free p - of_nat (length (connections p)))
        \<le> unat (poolSize p))"

text \<open>Every created connection has exactly one owner: the idle cache or one caller.\<close>

definition owned_once :: "world \<Rightarrow> bool" where
  "owned_once w =
     (distinct (connections (pool w) @ held w) \<and>
      set (connections (pool w) @ held w) = Some ` {..<length (store w)})"

text \<open>The count \<open>connectionsAlive_\<close> is the number of objects created.\<close>

definition created :: "world \<Rightarrow> bool" where
  "created w = (pool_inv (pool w) \<and> unat (connectionsAlive (pool w)) = length (store w))"

text \<open>When no creation has failed, the slots taken are the handles checked out.\<close>

definition tidy :: "world \<Rightarrow> bool" where
  "tidy w =
     (owned_once w \<and> created w \<and>
      unat (free (pool w)) + length (held w) = unat (poolSize (pool w)))"

section \<open>Threads, statement by statement\<close>

text \<open>
  A thread is at a line of \<open>GetConnection\<close>, \<open>FreeConnection\<close> or of the monitoring
  loop of \<open>main\<close>, or outside the pool with its variable \<open>connection\<close>. The
  local variables of a method travel with the program point.
\<close>

type_synonym tid = nat

datatype pc =
    Outside ConnectionPtr
  | Unwound error
  | Get_lock string
  | Get_wait string
  | Get_blocked string
  | Get_dec string
  | Get_test string
  | Get_new string
  | Get_inc ConnectionPtr
  | Get_back
  | Get_pop ConnectionPtr
  | Get_ret ConnectionPtr
  | Free_lock ConnectionPtr
  | Free_push ConnectionPtr
  | Free_inc
  | Free_notify
  | Main_spin
  | Main_inuse nat
  | Main_alive nat size_t
  | Main_size nat size_t size_t
  | Main_assert1 nat size_t size_t size_t
  | Main_assert2 nat size_t size_t size_t
  | Main_join
  | Assert_failed nat

text \<open>\<open>mt\<close> is the owner of the mutex \<open>mt_\<close>, \<open>cv\<close> the threads blocked in
  \<open>cv_.wait\<close>.\<close>

record config =
  cpool :: ConnectionPool
  cheap :: heap
  mt :: "tid option"
  cv :: "tid list"
  pcs :: "tid \<Rightarrow> pc"

definition at :: "tid \<Rightarrow> pc \<Rightarrow> config \<Rightarrow> config" where
  "at t l c = c\<lparr>pcs := (pcs c)(t := l)\<rparr>"

text \<open>A thread that leaves \<open>cv_.wait\<close> locks the mutex again and evaluates the
  predicate again: it is back at the lock.\<close>

definition woken :: "pc \<Rightarrow> pc" where
  "woken l = (case l of Get_blocked s \<Rightarrow> Get_lock s | _ \<Rightarrow> l)"

text \<open>\<open>cv_.notify_one()\<close>: nothing when no thread waits; otherwise one waiting thread,
  the \<open>k\<close>-th (which one is the implementation's choice), leaves the wait.\<close>

definition notify_one :: "nat \<Rightarrow> config \<Rightarrow> config" where
  "notify_one k c =
     (if cv c = [] then c
      else let i = k mod length (cv c); w = cv c ! i
           in c\<lparr>cv := take i (cv c) @ drop (Suc i) (cv c),
                 pcs := (pcs c)(w := woken (pcs c w))\<rparr>)"

text \<open>
  One statement of thread \<open>t\<close>; \<open>None\<close> when the thread cannot move (it waits for
  the mutex or for a notification, or it is not inside a method). The line numbers are
  those of ConnectPool.cpp.
\<close>

definition step :: "tid \<Rightarrow> nat \<Rightarrow> config \<Rightarrow> config option" where
  "step t k c =
     (case pcs c t of
        Get_lock s \<Rightarrow>
          \<comment> \<open>80: \<open>std::unique_lock<std::mutex> lock(mt_)\<close>\<close>
          if mt c = None then Some (at t (Get_wait s) (c\<lparr>mt := Some t\<rparr>)) else None
      | Get_wait s \<Rightarrow>
          \<comment> \<open>81: \<open>cv_.wait(lock, [this](){return free_ > 0;})\<close>\<close>
          if 0 < free (cpool c) then Some (at t (Get_dec s) c)
          else Some (at t (Get_blocked s) (c\<lparr>mt := None, cv := cv c @ [t]\<rparr>))
      | Get_dec s \<Rightarrow>
          \<comment> \<open>82: \<open>--free_\<close>\<close>
          Some (at t (Get_test s) (c\<lparr>cpool := (cpool c)\<lparr>free := free (cpool c) - 1\<rparr>\<rparr>))
      | Get_test s \<Rightarrow>
          \<comment> \<open>83: \<open>if (connections_.size() == 0)\<close>\<close>
          if length (connections (cpool c)) = 0 then Some (at t (Get_new s) c)
          else Some (at t Get_back c)
      | Get_new s \<Rightarrow>
          \<comment> \<open>84: \<open>auto NewPtr = std::make_shared<FakeConnection>(stoi(threadId))\<close>\<close>
          (case stoi s of
             Inl e \<Rightarrow> Some (at t (Unwound e) (c\<lparr>mt := None\<rparr>))
           | Inr i \<Rightarrow>
               let (NewPtr, h1) = make_shared i (cheap c)
               in Some (at t (Get_inc NewPtr) (c\<lparr>cheap := h1\<rparr>)))
      | Get_inc NewPtr \<Rightarrow>
          \<comment> \<open>85: \<open>++connectionsAlive_\<close>\<close>
          Some (at t (Get_ret NewPtr)
            (c\<lparr>cpool := (cpool c)\<lparr>connectionsAlive := connectionsAlive (cpool c) + 1\<rparr>\<rparr>))
      | Get_back \<Rightarrow>
          \<comment> \<open>88: \<open>ConnectionPtr FreePtr = connections_.back()\<close>\<close>
          Some (at t (Get_pop (last (connections (cpool c)))) c)
      | Get_pop FreePtr \<Rightarrow>
          \<comment> \<open>89: \<open>connections_.pop_back()\<close>\<close>
          Some (at t (Get_ret FreePtr)
            (c\<lparr>cpool := (cpool c)\<lparr>connections := butlast (connections (cpool c))\<rparr>\<rparr>))
      | Get_ret ptr \<Rightarrow>
          \<comment> \<open>86, 90: \<open>return\<close>, the lock is released\<close>
          Some (at t (Outside ptr) (c\<lparr>mt := None\<rparr>))
      | Free_lock connection \<Rightarrow>
          \<comment> \<open>98: \<open>std::unique_lock<std::mutex> lock(mt_)\<close>\<close>
          if mt c = None then Some (at t (Free_push connection) (c\<lparr>mt := Some t\<rparr>)) else None
      | Free_push connection \<Rightarrow>
          \<comment> \<open>99: \<open>connections_.push_back(std::move(connection))\<close>\<close>
          let (moved, connection') = move_ptr connection
          in Some (at t Free_inc
               (c\<lparr>cpool := (cpool c)\<lparr>connections := connections (cpool c) @ [moved]\<rparr>\<rparr>))
      | Free_inc \<Rightarrow>
          \<comment> \<open>100: \<open>++free_\<close>\<close>
          Some (at t Free_notify (c\<lparr>cpool := (cpool c)\<lparr>free := free (cpool c) + 1\<rparr>\<rparr>))
      | Free_notify \<Rightarrow>
          \<comment> \<open>101: \<open>cv_.notify_one()\<close>, then the lock is released; the caller's
              variable was moved from\<close>
          Some (at t (Outside None) ((notify_one k c)\<lparr>mt := None\<rparr>))
      | Main_spin \<Rightarrow>
          \<comment> \<open>160: \<open>while (!pool.ConnectionsAlive()) {}\<close>\<close>
          if ConnectionsAlive (cpool c) = 0 then Some c else Some (at t (Main_inuse 0) c)
      | Main_inuse i \<Rightarrow>
          \<comment> \<open>162, 163: \<open>i < 40\<close>; \<open>connectionsInUse = pool.ConnectionsInUse()\<close>\<close>
          if i < 40 then Some (at t (Main_alive i (ConnectionsInUse (cpool c))) c)
          else Some (at t Main_join c)
      | Main_alive i u \<Rightarrow>
          \<comment> \<open>164: \<open>connectionsAlive = pool.ConnectionsAlive()\<close>\<close>
          Some (at t (Main_size i u (ConnectionsAlive (cpool c))) c)
      | Main_size i u a \<Rightarrow>
          \<comment> \<open>165: \<open>poolSize = pool.PoolSize()\<close>\<close>
          Some (at t (Main_assert1 i u a (PoolSize (cpool c))) c)
      | Main_assert1 i u a n \<Rightarrow>
          \<comment> \<open>166: \<open>assert(connectionsInUse <= connectionsAlive)\<close>\<close>
          if u \<le> a then Some (at t (Main_assert2 i u a n) c)
          else Some (at t (Assert_failed 166) c)
      | Main_assert2 i u a n \<Rightarrow>
          \<comment> \<open>167: \<open>assert(connectionsAlive <= poolSize)\<close>\<close>
          if a \<le> n then Some (at t (Main_inuse (Suc i)) c)
          else Some (at t (Assert_failed 167) c)
      | _ \<Rightarrow> None)"

text \<open>
  What the scheduler and the callers can do: let a thread run one statement, wake a
  waiting thread spuriously (the standard allows it), or have a thread that is outside
  the pool call a method or enter the monitoring loop of \<open>main\<close>.
\<close>

datatype action =
    Run tid nat
  | Spurious tid
  | Call_GetConnection tid string
  | Call_FreeConnection tid
  | Call_monitor tid

fun act :: "action \<Rightarrow> config \<Rightarrow> config option" where
  "act (Run t k) c = step t k c"
| "act (Spurious t) c =
     (case pcs c t of
        Get_blocked s \<Rightarrow> Some (at t (Get_lock s) (c\<lparr>cv := removeAll t (cv c)\<rparr>))
      | _ \<Rightarrow> None)"
| "act (Call_GetConnection t threadId) c =
     (case pcs c t of Outside ptr \<Rightarrow> Some (at t (Get_lock threadId) c) | _ \<Rightarrow> None)"
| "act (Call_FreeConnection t) c =
     (case pcs c t of Outside ptr \<Rightarrow> Some (at t (Free_lock ptr) c) | _ \<Rightarrow> None)"
| "act (Call_monitor t) c =
     (case pcs c t of Outside ptr \<Rightarrow> Some (at t Main_spin c) | _ \<Rightarrow> None)"

fun acts :: "action list \<Rightarrow> config \<Rightarrow> config option" where
  "acts [] c = Some c"
| "acts (a # as) c = (case act a c of None \<Rightarrow> None | Some c' \<Rightarrow> acts as c')"

text \<open>The program at the start of \<open>main\<close>: \<open>ConnectionPool pool(n)\<close>, every thread
  outside the pool with a null handle.\<close>

definition start :: "size_t \<Rightarrow> config" where
  "start n =
     \<lparr>cpool = ConnectionPool_init n, cheap = [], mt = None, cv = [],
      pcs = (\<lambda>t. Outside None)\<rparr>"

subsection \<open>Critical sections\<close>

text \<open>The program points at which a thread holds the mutex.\<close>

definition critical :: "pc \<Rightarrow> bool" where
  "critical l =
     (case l of
        Get_wait s \<Rightarrow> True | Get_dec s \<Rightarrow> True | Get_test s \<Rightarrow> True | Get_new s \<Rightarrow> True
      | Get_inc ptr \<Rightarrow> True | Get_back \<Rightarrow> True | Get_pop ptr \<Rightarrow> True | Get_ret ptr \<Rightarrow> True
      | Free_push ptr \<Rightarrow> True | Free_inc \<Rightarrow> True | Free_notify \<Rightarrow> True
      | _ \<Rightarrow> False)"

text \<open>
  What the pool and the store will be when the thread at program point \<open>l\<close> has
  left its critical section, given what they are now.
\<close>

definition finish :: "pc \<Rightarrow> ConnectionPool \<times> heap \<Rightarrow> ConnectionPool \<times> heap" where
  "finish l ph =
     (let p = fst ph; h = snd ph;
          grown = (\<lambda>s q. case stoi s of
                      Inl e \<Rightarrow> (q, h)
                    | Inr i \<Rightarrow> (q\<lparr>connectionsAlive := connectionsAlive q + 1\<rparr>,
                                snd (make_shared i h)));
          popped = (\<lambda>q. (q\<lparr>connections := butlast (connections q)\<rparr>, h));
          tested = (\<lambda>s q. if length (connections q) = 0 then grown s q else popped q);
          decremented = (\<lambda>s q. tested s (q\<lparr>free := free q - 1\<rparr>))
      in case l of
           Get_wait s \<Rightarrow> if 0 < free p then decremented s p else (p, h)
         | Get_dec s \<Rightarrow> decremented s p
         | Get_test s \<Rightarrow> tested s p
         | Get_new s \<Rightarrow> grown s p
         | Get_inc ptr \<Rightarrow> (p\<lparr>connectionsAlive := connectionsAlive p + 1\<rparr>, h)
         | Get_back \<Rightarrow> popped p
         | Get_pop ptr \<Rightarrow> popped p
         | Free_push ptr \<Rightarrow> (p\<lparr>connections := connections p @ [ptr], free := free p + 1\<rparr>, h)
         | Free_inc \<Rightarrow> (p\<lparr>free := free p + 1\<rparr>, h)
         | _ \<Rightarrow> (p, h))"

text \<open>The pool and the store as they are once the current critical section, if any,
  is over.\<close>

definition committed :: "config \<Rightarrow> ConnectionPool \<times> heap" where
  "committed c =
     (case mt c of
        None \<Rightarrow> (cpool c, cheap c)
      | Some t \<Rightarrow> finish (pcs c t) (cpool c, cheap c))"

text \<open>The thread \<open>u\<close>, run alone, frees the mutex within \<open>n\<close> statements.\<close>

definition releases :: "tid \<Rightarrow> nat \<Rightarrow> config \<Rightarrow> bool" where
  "releases u n c = (\<exists>m\<le>n. \<exists>c'. acts (replicate m (Run u 0)) c = Some c' \<and> mt c' = None)"

text \<open>The mutex is held by exactly the thread that is inside a critical section.\<close>

definition lock_inv :: "config \<Rightarrow> bool" where
  "lock_inv c = (\<forall>t. critical (pcs c t) = (mt c = Some t))"

subsection \<open>Correct usage by threads\<close>

text \<open>The handle in the variable \<open>connection\<close> of a thread that is outside the
  critical sections.\<close>

definition holds :: "pc \<Rightarrow> ConnectionPtr" where
  "holds l = (case l of Outside ptr \<Rightarrow> ptr | Free_lock ptr \<Rightarrow> ptr | _ \<Rightarrow> None)"

text \<open>The handle a thread holds once its critical section, if it is in one, is over.\<close>

definition will_hold :: "config \<Rightarrow> tid \<Rightarrow> ConnectionPtr" where
  "will_hold c t =
     (let p = cpool c; h = cheap c;
          grown = (\<lambda>s. case stoi s of Inl e \<Rightarrow> None | Inr i \<Rightarrow> fst (make_shared i h));
          tested = (\<lambda>s. if length (connections p) = 0 then grown s else last (connections p))
      in case pcs c t of
           Outside ptr \<Rightarrow> ptr
         | Free_lock ptr \<Rightarrow> ptr
         | Get_wait s \<Rightarrow> if 0 < free p then tested s else None
         | Get_dec s \<Rightarrow> tested s
         | Get_test s \<Rightarrow> tested s
         | Get_new s \<Rightarrow> grown s
         | Get_inc ptr \<Rightarrow> ptr
         | Get_back \<Rightarrow> last (connections p)
         | Get_pop ptr \<Rightarrow> ptr
         | Get_ret ptr \<Rightarrow> ptr
         | _ \<Rightarrow> None)"

text \<open>
  Correct usage, as in \<open>ThreadFunc\<close>: a thread asks for a connection (or starts
  monitoring) when its variable is null, and gives back the handle it holds.
\<close>

fun proper :: "action \<Rightarrow> config \<Rightarrow> bool" where
  "proper (Call_GetConnection t threadId) c = (pcs c t = Outside None)"
| "proper (Call_FreeConnection t) c = (pcs c t \<noteq> Outside None)"
| "proper (Call_monitor t) c = (pcs c t = Outside None)"
| "proper (Run t k) c = True"
| "proper (Spurious t) c = True"

fun proper_acts :: "action list \<Rightarrow> config \<Rightarrow> config option" where
  "proper_acts [] c = Some c"
| "proper_acts (a # as) c =
     (if proper a c
      then (case act a c of None \<Rightarrow> None | Some c' \<Rightarrow> proper_acts as c')
      else None)"

text \<open>
  Every created connection has exactly one owner, the idle cache \<open>cs\<close> or one thread
  (\<open>W t\<close> is the handle of thread \<open>t\<close>), where \<open>n\<close> connections were created:
  the cache has no duplicate and no null, no thread holds what the cache holds, no two
  threads hold the same connection, and every created connection is in the cache or held.
\<close>

definition owns :: "ConnectionPtr list \<Rightarrow> nat \<Rightarrow> (tid \<Rightarrow> ConnectionPtr) \<Rightarrow> bool" where
  "owns cs n W =
     (distinct cs \<and>
      set cs \<subseteq> Some ` {..<n} \<and>
      (\<forall>t. W t \<notin> set cs) \<and>
      (\<forall>t u. W t = W u \<longrightarrow> t = u \<or> W t = None) \<and>
      (\<forall>t a. W t = Some a \<longrightarrow> a < n) \<and>
      (\<forall>a<n. Some a \<in> set cs \<or> (\<exists>t. W t = Some a)))"

definition owned_inv :: "config \<Rightarrow> bool" where
  "owned_inv c =
     (owns (connections (fst (committed c))) (length (snd (committed c))) (will_hold c) \<and>
      (\<forall>t. pcs c t \<noteq> Free_lock None))"

section \<open>What one call does\<close>

lemma GetConnection_blocked:
  "free p = 0 \<Longrightarrow> GetConnection s p h = (Blocked, p, h)"
  by (simp add: GetConnection_def)

lemma GetConnection_reuse:
  "free p \<noteq> 0 \<Longrightarrow> connections p \<noteq> [] \<Longrightarrow>
   GetConnection s p h =
     (Returned (last (connections p)),
      p\<lparr>connections := butlast (connections p), free := free p - 1\<rparr>, h)"
  by (simp add: GetConnection_def word_gt_0)

lemma GetConnection_grow:
  "free p \<noteq> 0 \<Longrightarrow> connections p = [] \<Longrightarrow> stoi s = Inr i \<Longrightarrow>
   GetConnection s p h =
     (Returned (Some (length h)),
      p\<lparr>connectionsAlive := connectionsAlive p + 1, free := free p - 1\<rparr>,
      h @ [\<lparr>conn_id = i\<rparr>])"
  by (simp add: GetConnection_def word_gt_0 make_shared_def)

lemma GetConnection_throw:
  "free p \<noteq> 0 \<Longrightarrow> connections p = [] \<Longrightarrow> stoi s = Inl e \<Longrightarrow>
   GetConnection s p h = (Threw e, p\<lparr>free := free p - 1\<rparr>, h)"
  by (simp add: GetConnection_def word_gt_0)

lemma FreeConnection_eq:
  "FreeConnection c p = (None, p\<lparr>connections := connections p @ [c], free := free p + 1\<rparr>)"
  by (simp add: FreeConnection_def move_ptr_def)

lemma GetConnection_cases:
  obtains (blocked) "free p = 0" "GetConnection s p h = (Blocked, p, h)"
  | (reuse) "free p \<noteq> 0" "connections p \<noteq> []"
      "GetConnection s p h =
        (Returned (last (connections p)),
         p\<lparr>connections := butlast (connections p), free := free p - 1\<rparr>, h)"
  | (grow) i where "free p \<noteq> 0" "connections p = []" "stoi s = Inr i"
      "GetConnection s p h =
        (Returned (Some (length h)),
         p\<lparr>connectionsAlive := connectionsAlive p + 1, free := free p - 1\<rparr>,
         h @ [\<lparr>conn_id = i\<rparr>])"
  | (throw) e where "free p \<noteq> 0" "connections p = []" "stoi s = Inl e"
      "GetConnection s p h = (Threw e, p\<lparr>free := free p - 1\<rparr>, h)"
proof (cases "free p = 0")
  case True
  then show ?thesis using blocked GetConnection_blocked by blast
next
  case nz: False
  show ?thesis
  proof (cases "connections p = []")
    case False
    then show ?thesis using nz reuse GetConnection_reuse by blast
  next
    case True
    then show ?thesis
      using nz grow throw GetConnection_grow GetConnection_throw
      by (cases "stoi s") blast+
  qed
qed

lemma pool_inv_init: "pool_inv (ConnectionPool_init n)"
  by (simp add: pool_inv_def ConnectionPool_init_def)

lemma pool_inv_FreeConnection:
  "pool_inv p \<Longrightarrow> pool_inv (snd (FreeConnection c p))"
  by (simp add: pool_inv_def FreeConnection_eq)

lemma word_pred_of_nat:
  "0 < n \<Longrightarrow> (x::size_t) - 1 - of_nat (n - Suc 0) = x - of_nat n"
  by (cases n) simp_all

lemma pool_inv_room:
  assumes "pool_inv p" "free p \<noteq> 0" "connections p = []"
  shows "unat (connectionsAlive p) < unat (poolSize p)"
proof -
  have "0 < unat (free p)" using assms(2) by (simp add: unat_gt_0)
  then show ?thesis using assms(1,3) by (simp add: pool_inv_def)
qed

lemma unat_alive_Suc:
  assumes "pool_inv p" "free p \<noteq> 0" "connections p = []"
  shows "unat (connectionsAlive p + 1) = Suc (unat (connectionsAlive p))"
proof -
  have "unat (connectionsAlive p) < unat (poolSize p)" using assms by (rule pool_inv_room)
  moreover have "unat (poolSize p) < 2 ^ 64" using unsigned_less [of "poolSize p"] by simp
  ultimately have "unat (connectionsAlive p) + unat (1::size_t) < 2 ^ LENGTH(64)" by simp
  then have "unat (connectionsAlive p + 1) = unat (connectionsAlive p) + unat (1::size_t)"
    by (simp only: unat_add_lem [THEN iffD1])
  then show ?thesis by simp
qed

lemma pool_inv_GetConnection:
  assumes "pool_inv p"
  shows "pool_inv (fst (snd (GetConnection s p h)))"
proof (cases rule: GetConnection_cases [where p = p and s = s and h = h])
  case blocked
  then show ?thesis using assms by simp
next
  case reuse
  then show ?thesis using assms by (simp add: pool_inv_def word_pred_of_nat)
next
  case (grow i)
  have "unat (free p - 1) = unat (free p) - 1" using grow(1) by (simp add: unat_minus_one)
  moreover have "0 < unat (free p)" using grow(1) by (simp add: unat_gt_0)
  ultimately show ?thesis
    using assms grow unat_alive_Suc [OF assms grow(1,2)] by (simp add: pool_inv_def)
next
  case (throw e)
  have "unat (free p - 1) = unat (free p) - 1" using throw(1) by (simp add: unat_minus_one)
  then show ?thesis using assms throw by (simp add: pool_inv_def)
qed

lemma poolSize_GetConnection [simp]:
  "poolSize (fst (snd (GetConnection s p h))) = poolSize p"
  by (cases rule: GetConnection_cases [where p = p and s = s and h = h]) simp_all

lemma poolSize_FreeConnection [simp]:
  "poolSize (snd (FreeConnection c p)) = poolSize p"
  by (simp add: FreeConnection_eq)

lemma connectionsAlive_FreeConnection [simp]:
  "connectionsAlive (snd (FreeConnection c p)) = connectionsAlive p"
  by (simp add: FreeConnection_eq)

lemma alive_mono_GetConnection:
  assumes "pool_inv p"
  shows "connectionsAlive p \<le> connectionsAlive (fst (snd (GetConnection s p h)))"
proof (cases rule: GetConnection_cases [where p = p and s = s and h = h])
  case (grow i)
  then show ?thesis
    using unat_alive_Suc [OF assms grow(1,2)] by (simp add: word_le_nat_alt)
qed simp_all

lemma pool_inv_exec_call: "pool_inv (fst s) \<Longrightarrow> pool_inv (fst (exec_call c s))"
  by (cases c; cases s) (simp_all add: pool_inv_GetConnection pool_inv_FreeConnection)

lemma poolSize_exec_call [simp]: "poolSize (fst (exec_call c s)) = poolSize (fst s)"
  by (cases c; cases s) simp_all

lemma alive_mono_exec_call:
  "pool_inv (fst s) \<Longrightarrow> connectionsAlive (fst s) \<le> connectionsAlive (fst (exec_call c s))"
  by (cases c; cases s) (simp_all add: alive_mono_GetConnection)

lemma pool_inv_exec_calls: "pool_inv (fst s) \<Longrightarrow> pool_inv (fst (exec_calls cs s))"
  by (induction cs arbitrary: s) (simp_all add: pool_inv_exec_call)

lemma poolSize_exec_calls [simp]: "poolSize (fst (exec_calls cs s)) = poolSize (fst s)"
  by (induction cs arbitrary: s) simp_all

lemma alive_mono_exec_calls:
  "pool_inv (fst s) \<Longrightarrow> connectionsAlive (fst s) \<le> connectionsAlive (fst (exec_calls cs s))"
proof (induction cs arbitrary: s)
  case Nil
  show ?case by simp
next
  case (Cons c cs)
  have "connectionsAlive (fst s) \<le> connectionsAlive (fst (exec_call c s))"
    using Cons.prems by (rule alive_mono_exec_call)
  also have "\<dots> \<le> connectionsAlive (fst (exec_calls cs (exec_call c s)))"
    using Cons.prems by (intro Cons.IH pool_inv_exec_call)
  finally show ?case by simp
qed

lemma exec_calls_append: "exec_calls (cs @ cs') s = exec_calls cs' (exec_calls cs s)"
  by (induction cs arbitrary: s) simp_all

lemma pool_inv_alive_le: "pool_inv p \<Longrightarrow> connectionsAlive p \<le> poolSize p"
  by (simp add: pool_inv_def word_le_nat_alt)


lemma owned_once_fresh:
  assumes "owned_once w"
  shows "Some (length (store w)) \<notin> set (connections (pool w) @ held w)"
  using assms by (auto simp: owned_once_def)

lemma owned_once_Acquire:
  assumes "owned_once w"
  shows "owned_once (use (Acquire s) w)"
proof (cases rule: GetConnection_cases [where p = "pool w" and s = s and h = "store w"])
  case blocked
  then show ?thesis using assms by simp
next
  case reuse
  obtain xs x where cs: "connections (pool w) = xs @ [x]"
    using reuse(2) by (metis append_butlast_last_id)
  have "use (Acquire s) w =
          w\<lparr>pool := (pool w)\<lparr>connections := xs, free := free (pool w) - 1\<rparr>,
            store := store w, held := held w @ [x]\<rparr>"
    using reuse(3) cs by simp
  then show ?thesis using assms cs by (auto simp: owned_once_def)
next
  case (grow i)
  have "{..<Suc (length (store w))} = insert (length (store w)) {..<length (store w)}"
    by auto
  then show ?thesis
    using grow assms owned_once_fresh [OF assms] by (auto simp: owned_once_def)
next
  case (throw e)
  then show ?thesis using assms by (simp add: owned_once_def)
qed

lemma owned_once_Release:
  assumes "owned_once w"
  shows "owned_once (use (Release i) w)"
proof (cases "i < length (held w)")
  case False
  then show ?thesis using assms by simp
next
  case True
  then have h: "held w = take i (held w) @ held w ! i # drop (Suc i) (held w)"
    by (rule id_take_nth_drop)
  have d: "distinct (connections (pool w) @ take i (held w) @ held w ! i # drop (Suc i) (held w))"
    using assms h by (simp add: owned_once_def)
  have s: "set (connections (pool w) @ take i (held w) @ held w ! i # drop (Suc i) (held w))
             = Some ` {..<length (store w)}"
    using assms h by (simp add: owned_once_def)
  show ?thesis using True d s by (auto simp: owned_once_def FreeConnection_eq)
qed

lemma owned_once_use: "owned_once w \<Longrightarrow> owned_once (use u w)"
  by (cases u) (simp_all only: owned_once_Acquire owned_once_Release)

lemma owned_once_uses: "owned_once w \<Longrightarrow> owned_once (uses us w)"
  by (induction us arbitrary: w) (simp_all add: owned_once_use)

lemma owned_once_new_world: "owned_once (new_world n)"
  by (simp add: owned_once_def new_world_def ConnectionPool_init_def)

lemma owned_once_length:
  assumes "owned_once w"
  shows "length (connections (pool w)) + length (held w) = length (store w)"
proof -
  from assms have d: "distinct (connections (pool w) @ held w)"
    and s: "set (connections (pool w) @ held w) = Some ` {..<length (store w)}"
    unfolding owned_once_def by blast+
  have "length (connections (pool w) @ held w) = card (set (connections (pool w) @ held w))"
    using distinct_card [OF d] by simp
  also have "\<dots> = card (Some ` {..<length (store w)})"
    by (simp only: s)
  also have "\<dots> = length (store w)"
    by (simp add: card_image)
  finally show ?thesis by simp
qed

lemma pool_inv_use: "pool_inv (pool w) \<Longrightarrow> pool_inv (pool (use u w))"
proof (cases u)
  case (Acquire s)
  assume inv: "pool_inv (pool w)"
  have "pool (use (Acquire s) w) = pool w \<or>
        pool (use (Acquire s) w) = fst (snd (GetConnection s (pool w) (store w)))"
    by (cases rule: GetConnection_cases [where p = "pool w" and s = s and h = "store w"]) simp_all
  then show ?thesis using Acquire inv pool_inv_GetConnection [OF inv] by auto
next
  case (Release i)
  assume "pool_inv (pool w)"
  then show ?thesis using Release by (simp add: pool_inv_FreeConnection)
qed

lemma pool_inv_uses: "pool_inv (pool w) \<Longrightarrow> pool_inv (pool (uses us w))"
  by (induction us arbitrary: w) (simp_all add: pool_inv_use)

lemma pool_inv_new_world: "pool_inv (pool (new_world n))"
  by (simp add: new_world_def pool_inv_init)

lemma created_use: "created w \<Longrightarrow> created (use u w)"
proof (cases u)
  case (Acquire s)
  assume c: "created w"
  then have inv: "pool_inv (pool w)" by (simp add: created_def)
  have "pool_inv (pool (use u w))" using inv by (rule pool_inv_use)
  moreover have "unat (connectionsAlive (pool (use (Acquire s) w))) = length (store (use (Acquire s) w))"
  proof (cases rule: GetConnection_cases [where p = "pool w" and s = s and h = "store w"])
    case (grow i)
    then show ?thesis using c unat_alive_Suc [OF inv grow(1,2)] by (simp add: created_def)
  qed (use c in \<open>simp_all add: created_def\<close>)
  ultimately show ?thesis using Acquire by (simp add: created_def)
next
  case (Release i)
  assume "created w"
  then show ?thesis using Release by (simp add: created_def pool_inv_FreeConnection)
qed

lemma created_uses: "created w \<Longrightarrow> created (uses us w)"
  by (induction us arbitrary: w) (simp_all add: created_use)

lemma created_new_world: "created (new_world n)"
  by (simp add: created_def new_world_def pool_inv_init) (simp add: ConnectionPool_init_def)

subsection \<open>Correct usage in which every creation succeeds\<close>

text \<open>
  As long as no call of \<open>GetConnection\<close> has thrown, the slots that are taken are
  exactly the handles that are checked out, and the counters are ordered as \<open>main\<close>
  asserts them. The number of objects created is within the capacity in any case.
\<close>

lemma unat_pred: "(x::size_t) \<noteq> 0 \<Longrightarrow> unat (x - 1) = unat x - 1"
  by (simp add: unat_minus_one)

lemma tidy_Acquire:
  assumes "tidy w" and "parses (Acquire s)"
  shows "tidy (use (Acquire s) w)"
proof -
  have o: "owned_once (use (Acquire s) w)" using assms(1) by (simp only: tidy_def owned_once_use)
  have c: "created (use (Acquire s) w)" using assms(1) by (simp only: tidy_def created_use)
  have "unat (free (pool (use (Acquire s) w))) + length (held (use (Acquire s) w))
          = unat (poolSize (pool (use (Acquire s) w)))"
  proof (cases rule: GetConnection_cases [where p = "pool w" and s = s and h = "store w"])
    case blocked
    then show ?thesis using assms(1) by (simp add: tidy_def)
  next
    case reuse
    have "0 < unat (free (pool w))" using reuse(1) by (simp add: unat_gt_0)
    then show ?thesis using assms(1) reuse by (simp add: tidy_def unat_pred)
  next
    case (grow i)
    have "0 < unat (free (pool w))" using grow(1) by (simp add: unat_gt_0)
    then show ?thesis using assms(1) grow by (simp add: tidy_def unat_pred)
  next
    case (throw e)
    then show ?thesis using assms(2) by simp
  qed
  then show ?thesis using o c by (simp add: tidy_def)
qed

lemma tidy_Release:
  assumes "tidy w"
  shows "tidy (use (Release i) w)"
proof (cases "i < length (held w)")
  case False
  then show ?thesis using assms by simp
next
  case True
  have o: "owned_once (use (Release i) w)" using assms by (simp only: tidy_def owned_once_use)
  have c: "created (use (Release i) w)" using assms by (simp only: tidy_def created_use)
  have sum: "unat (free (pool w)) + length (held w) = unat (poolSize (pool w))"
    using assms by (simp add: tidy_def)
  have "unat (poolSize (pool w)) < 2 ^ 64" using unsigned_less [of "poolSize (pool w)"] by simp
  then have "unat (free (pool w)) + unat (1::size_t) < 2 ^ LENGTH(64)"
    using sum True by simp
  then have "unat (free (pool w) + 1) = unat (free (pool w)) + unat (1::size_t)"
    by (simp only: unat_add_lem [THEN iffD1])
  then have "unat (free (pool w) + 1) + (length (held w) - 1) = unat (poolSize (pool w))"
    using sum True by simp
  moreover have "length (take i (held w) @ drop (Suc i) (held w)) = length (held w) - 1"
    using True by (simp add: min_def)
  ultimately show ?thesis using True o c by (simp add: tidy_def FreeConnection_eq)
qed

lemma tidy_use: "tidy w \<Longrightarrow> parses u \<Longrightarrow> tidy (use u w)"
  by (cases u) (simp_all only: tidy_Acquire tidy_Release)

lemma tidy_uses: "tidy w \<Longrightarrow> \<forall>u\<in>set us. parses u \<Longrightarrow> tidy (uses us w)"
  by (induction us arbitrary: w) (simp_all add: tidy_use)

lemma tidy_new_world: "tidy (new_world n)"
  by (simp add: tidy_def owned_once_new_world created_new_world)
     (simp add: new_world_def ConnectionPool_init_def)

lemma tidy_in_use:
  assumes "tidy w"
  shows "unat (ConnectionsInUse (pool w)) = length (held w)"
proof -
  have sum: "unat (free (pool w)) + length (held w) = unat (poolSize (pool w))"
    using assms by (simp add: tidy_def)
  then have "free (pool w) \<le> poolSize (pool w)" by (simp add: word_le_nat_alt)
  then have "unat (poolSize (pool w) - free (pool w)) = unat (poolSize (pool w)) - unat (free (pool w))"
    by (rule unat_sub)
  then show ?thesis using sum by (simp add: ConnectionsInUse_def)
qed

lemma usage_invariant_when_creation_succeeds:
  assumes "\<forall>u\<in>set us. parses u"
  shows "ConnectionsInUse (pool (uses us (new_world n)))
           \<le> ConnectionsAlive (pool (uses us (new_world n))) \<and>
         ConnectionsAlive (pool (uses us (new_world n)))
           \<le> PoolSize (pool (uses us (new_world n))) \<and>
         unat (ConnectionsInUse (pool (uses us (new_world n))))
           = length (held (uses us (new_world n)))"
proof -
  let ?w = "uses us (new_world n)"
  have t: "tidy ?w" using tidy_new_world assms by (rule tidy_uses)
  have u: "unat (ConnectionsInUse (pool ?w)) = length (held ?w)" using t by (rule tidy_in_use)
  have "length (connections (pool ?w)) + length (held ?w) = length (store ?w)"
    using t by (simp only: tidy_def owned_once_length)
  moreover have "unat (connectionsAlive (pool ?w)) = length (store ?w)"
    using t by (simp add: tidy_def created_def)
  ultimately have "ConnectionsInUse (pool ?w) \<le> ConnectionsAlive (pool ?w)"
    using u by (simp add: word_le_nat_alt ConnectionsAlive_def)
  moreover have "ConnectionsAlive (pool ?w) \<le> PoolSize (pool ?w)"
    using t by (simp add: tidy_def created_def ConnectionsAlive_def PoolSize_def pool_inv_alive_le)
  ultimately show ?thesis using u by simp
qed

lemma creations_within_capacity:
  "length (store (uses us (new_world n))) \<le> unat (PoolSize (pool (uses us (new_world n)))) \<and>
   PoolSize (pool (uses us (new_world n))) = n"
proof -
  let ?w = "uses us (new_world n)"
  have c: "created ?w" by (intro created_uses created_new_world)
  then have "connectionsAlive (pool ?w) \<le> poolSize (pool ?w)"
    by (simp add: created_def pool_inv_alive_le)
  then have "length (store ?w) \<le> unat (poolSize (pool ?w))"
    using c by (simp add: created_def word_le_nat_alt)
  moreover have "poolSize (pool (uses us w)) = poolSize (pool w)" for w
  proof (induction us arbitrary: w)
    case (Cons u us)
    have "poolSize (pool (use u w)) = poolSize (pool w)"
    proof (cases u)
      case (Acquire s)
      then show ?thesis
        by (cases rule: GetConnection_cases [where p = "pool w" and s = s and h = "store w"]) simp_all
    next
      case (Release i)
      then show ?thesis by simp
    qed
    then show ?case using Cons.IH by simp
  qed simp
  ultimately show ?thesis by (simp add: PoolSize_def new_world_def ConnectionPool_init_def)
qed

section \<open>The claims about single calls and call sequences\<close>

lemmas stoi_eval = stoi_def isspace_c_def isdigit_c_def digits_value_def INT_MAX_def INT_MIN_def

text \<open>The thread ids that \<open>ThreadFunc\<close> passes are what \<open>operator<<\<close> prints for a
  \<open>std::thread::id\<close>: a decimal \<open>pthread_t\<close> with glibc, which does not fit an
  \<open>int\<close>, or a hexadecimal address as in the expected output at the end of the source
  file, of which \<open>stoi\<close> reads the leading \<open>0\<close>.\<close>

lemma stoi_decimal_thread_id: "stoi ''140737345763072'' = Inl out_of_range"
  by (simp add: stoi_eval)

lemma stoi_hex_thread_id: "stoi ''0x16d713000'' = Inr 0"
  by (simp add: stoi_eval)

text \<open>
  C1 (what the code does at a failing input). When \<open>stoi\<close> throws in
  \<open>GetConnection\<close>, the exception reaches the caller, but \<open>free_\<close> has been
  decremented before and stays decremented: on a pool of 5 the failed call leaves 4 free
  slots, and on a pool of 1 it leaves none, so that a later call with a good thread id
  blocks although no connection is checked out.
\<close>

theorem GetConnection_failed_creation_keeps_slot_taken:
  "GetConnection ''140737345763072'' (ConnectionPool_init 5) [] =
     (Threw out_of_range,
      \<lparr>connections = [], connectionsAlive = 0, free = 4, poolSize = 5\<rparr>, []) \<and>
   fst (GetConnection ''140737345763072'' (ConnectionPool_init 1) []) = Threw out_of_range \<and>
   GetConnection ''7''
     (fst (snd (GetConnection ''140737345763072'' (ConnectionPool_init 1) []))) [] =
     (Blocked, \<lparr>connections = [], connectionsAlive = 0, free = 0, poolSize = 1\<rparr>, [])"
  by (simp add: GetConnection_def ConnectionPool_init_def stoi_decimal_thread_id)

text \<open>
  C3 (as stated, refuted). The constructor given capacity 0 does not fail: it produces a
  pool with no slot.
\<close>

theorem ConnectionPool_ctor_accepts_zero:
  "ConnectionPool_ctor 0 =
     Inr \<lparr>connections = [], connectionsAlive = 0, free = 0, poolSize = 0\<rparr>"
  by (simp add: ConnectionPool_ctor_def ConnectionPool_init_def)

text \<open>
  C3 (amended). Construction never fails and checks nothing. The parameter is a
  \<open>size_t\<close>, so no negative capacity reaches the constructor; for every value, 0
  included, it produces a pool whose \<open>PoolSize()\<close> is that value, with as many free
  slots, no connection alive or in use and an empty idle cache. On a pool of capacity 0
  every call of \<open>GetConnection\<close> blocks.
\<close>

theorem ConnectionPool_ctor_never_fails:
  "ConnectionPool_ctor n = Inr (ConnectionPool_init n) \<and>
   PoolSize (ConnectionPool_init n) = n \<and>
   free (ConnectionPool_init n) = n \<and>
   ConnectionsAlive (ConnectionPool_init n) = 0 \<and>
   ConnectionsInUse (ConnectionPool_init n) = 0 \<and>
   connections (ConnectionPool_init n) = [] \<and>
   GetConnection s (ConnectionPool_init 0) h = (Blocked, ConnectionPool_init 0, h)"
  by (simp add: ConnectionPool_ctor_def ConnectionPool_init_def PoolSize_def
      ConnectionsAlive_def ConnectionsInUse_def GetConnection_def)

text \<open>
  C4 (what the code does at a failing input). One call of \<open>GetConnection\<close> whose
  creation step throws, on a fresh pool of 5: no handle is checked out, yet
  \<open>ConnectionsInUse()\<close> is 1 and \<open>ConnectionsAlive()\<close> is 0, so
  \<open>ConnectionsInUse() \<le> ConnectionsAlive()\<close> is false in a state reached by correct
  usage.
\<close>

theorem failed_creation_breaks_in_use_bound:
  "\<not> ConnectionsInUse (pool (uses [Acquire ''140737345763072''] (new_world 5)))
       \<le> ConnectionsAlive (pool (uses [Acquire ''140737345763072''] (new_world 5))) \<and>
   held (uses [Acquire ''140737345763072''] (new_world 5)) = []"
  by (simp add: new_world_def GetConnection_def ConnectionPool_init_def
      stoi_decimal_thread_id ConnectionsInUse_def ConnectionsAlive_def)

text \<open>
  Ownership for sequences of whole calls (the thread-level statement comes with the
  thread model below): after any sequence of correctly used
  \<open>GetConnection\<close> and \<open>FreeConnection\<close> calls on a new pool, the idle cache
  followed by the handles that are checked out lists every created connection exactly
  once.
\<close>

lemma calls_exclusive_ownership:
  "distinct (connections (pool (uses us (new_world n))) @ held (uses us (new_world n))) \<and>
   set (connections (pool (uses us (new_world n))) @ held (uses us (new_world n)))
     = Some ` {..<length (store (uses us (new_world n)))} \<and>
   distinct (held (uses us (new_world n))) \<and>
   set (held (uses us (new_world n))) \<inter> set (connections (pool (uses us (new_world n)))) = {}"
proof -
  have "owned_once (uses us (new_world n))"
    by (intro owned_once_uses owned_once_new_world)
  then show ?thesis by (auto simp: owned_once_def)
qed

text \<open>
  C6. In every state reached by correct usage of a new pool, a free slot together with
  an empty idle cache means that fewer connections are alive than the capacity allows;
  hence whatever \<open>GetConnection\<close> does in such a state (it takes the growth branch),
  the number of connections alive stays within the capacity.
\<close>

theorem free_slot_with_empty_cache_has_room:
  assumes "w = uses us (new_world n)" and "0 < free (pool w)" and "connections (pool w) = []"
  shows "ConnectionsAlive (pool w) < PoolSize (pool w) \<and>
         ConnectionsAlive (fst (snd (GetConnection s (pool w) (store w)))) \<le> PoolSize (pool w)"
proof -
  have inv: "pool_inv (pool w)"
    unfolding assms(1) by (intro pool_inv_uses pool_inv_new_world)
  have nz: "free (pool w) \<noteq> 0" using assms(2) by (simp add: word_gt_0)
  have "unat (connectionsAlive (pool w)) < unat (poolSize (pool w))"
    using inv nz assms(3) by (rule pool_inv_room)
  moreover have "connectionsAlive (fst (snd (GetConnection s (pool w) (store w))))
      \<le> poolSize (fst (snd (GetConnection s (pool w) (store w))))"
    using inv by (intro pool_inv_alive_le pool_inv_GetConnection)
  ultimately show ?thesis
    by (simp add: ConnectionsAlive_def PoolSize_def word_less_nat_alt)
qed

text \<open>An instance reached by use: on a pool of 3, two connections are created, the first
  is given back and taken again. One slot is free, the cache is empty, two connections
  are alive; the next \<open>GetConnection\<close> creates the third and last one.\<close>

theorem free_slot_with_empty_cache_has_room_witness:
  "uses [Acquire ''1'', Acquire ''2'', Release 0, Acquire ''3''] (new_world 3) =
     \<lparr>pool = \<lparr>connections = [], connectionsAlive = 2, free = 1, poolSize = 3\<rparr>,
      store = [\<lparr>conn_id = 1\<rparr>, \<lparr>conn_id = 2\<rparr>],
      held = [Some 1, Some 0]\<rparr> \<and>
   0 < free (pool (uses [Acquire ''1'', Acquire ''2'', Release 0, Acquire ''3''] (new_world 3))) \<and>
   connections (pool (uses [Acquire ''1'', Acquire ''2'', Release 0, Acquire ''3''] (new_world 3)))
     = [] \<and>
   ConnectionsAlive (pool (uses [Acquire ''1'', Acquire ''2'', Release 0, Acquire ''3''] (new_world 3)))
     < PoolSize (pool (uses [Acquire ''1'', Acquire ''2'', Release 0, Acquire ''3''] (new_world 3))) \<and>
   ConnectionsAlive (fst (snd (GetConnection ''7''
       (pool (uses [Acquire ''1'', Acquire ''2'', Release 0, Acquire ''3''] (new_world 3)))
       (store (uses [Acquire ''1'', Acquire ''2'', Release 0, Acquire ''3''] (new_world 3))))))
     \<le> PoolSize (pool (uses [Acquire ''1'', Acquire ''2'', Release 0, Acquire ''3''] (new_world 3))) \<and>
   ConnectionsAlive (fst (snd (GetConnection ''7''
       (pool (uses [Acquire ''1'', Acquire ''2'', Release 0, Acquire ''3''] (new_world 3)))
       (store (uses [Acquire ''1'', Acquire ''2'', Release 0, Acquire ''3''] (new_world 3)))))) = 3"
proof -
  let ?w = "uses [Acquire ''1'', Acquire ''2'', Release 0, Acquire ''3''] (new_world 3)"
  have r: "?w =
     \<lparr>pool = \<lparr>connections = [], connectionsAlive = 2, free = 1, poolSize = 3\<rparr>,
      store = [\<lparr>conn_id = 1\<rparr>, \<lparr>conn_id = 2\<rparr>],
      held = [Some 1, Some 0]\<rparr>"
    by (simp add: new_world_def ConnectionPool_init_def GetConnection_def FreeConnection_def
        move_ptr_def make_shared_def stoi_eval)
  have a: "0 < free (pool ?w)" unfolding r by simp
  have b: "connections (pool ?w) = []" unfolding r by simp
  have g: "ConnectionsAlive (fst (snd (GetConnection ''7'' (pool ?w) (store ?w)))) = 3"
    unfolding r by (simp add: GetConnection_def make_shared_def stoi_eval ConnectionsAlive_def)
  show ?thesis
    using r a b g free_slot_with_empty_cache_has_room [OF refl a b, of "''7''"] by simp
qed

text \<open>
  C7. When a slot is free and the idle cache is not empty, \<open>GetConnection\<close> returns
  the last element of the cache and removes it; the store of objects and
  \<open>connectionsAlive_\<close> are unchanged, so nothing is created. The last element is the
  handle most recently given to \<open>FreeConnection\<close>: a \<open>FreeConnection\<close> followed by a
  \<open>GetConnection\<close> returns that handle and restores the pool.
\<close>

theorem GetConnection_reuses_last_returned:
  "(0 < free p \<and> connections p \<noteq> [] \<longrightarrow>
      GetConnection s p h =
        (Returned (last (connections p)),
         p\<lparr>connections := butlast (connections p), free := free p - 1\<rparr>, h)) \<and>
   (free q + 1 \<noteq> 0 \<longrightarrow>
      GetConnection s (snd (FreeConnection c q)) h = (Returned c, q, h))"
  by (simp add: GetConnection_reuse FreeConnection_eq word_gt_0)

theorem GetConnection_reuses_last_returned_witness:
  "0 < free \<lparr>connections = [Some 0, Some 1], connectionsAlive = 2, free = 2, poolSize = 2\<rparr> \<and>
   connections \<lparr>connections = [Some 0, Some 1], connectionsAlive = 2, free = 2, poolSize = 2\<rparr>
     \<noteq> [] \<and>
   GetConnection ''7''
       \<lparr>connections = [Some 0, Some 1], connectionsAlive = 2, free = 2, poolSize = 2\<rparr>
       [\<lparr>conn_id = 0\<rparr>, \<lparr>conn_id = 0\<rparr>] =
     (Returned (Some 1),
      \<lparr>connections = [Some 0], connectionsAlive = 2, free = 1, poolSize = 2\<rparr>,
      [\<lparr>conn_id = 0\<rparr>, \<lparr>conn_id = 0\<rparr>]) \<and>
   free \<lparr>connections = [Some 0], connectionsAlive = 2, free = 1, poolSize = 2\<rparr> + 1 \<noteq> 0 \<and>
   GetConnection ''7''
       (snd (FreeConnection (Some 1)
          \<lparr>connections = [Some 0], connectionsAlive = 2, free = 1, poolSize = 2\<rparr>))
       [\<lparr>conn_id = 0\<rparr>, \<lparr>conn_id = 0\<rparr>] =
     (Returned (Some 1),
      \<lparr>connections = [Some 0], connectionsAlive = 2, free = 1, poolSize = 2\<rparr>,
      [\<lparr>conn_id = 0\<rparr>, \<lparr>conn_id = 0\<rparr>])"
  using GetConnection_reuses_last_returned
    [where p = "\<lparr>connections = [Some 0, Some 1], connectionsAlive = 2, free = 2, poolSize = 2\<rparr>"
       and q = "\<lparr>connections = [Some 0], connectionsAlive = 2, free = 1, poolSize = 2\<rparr>"
       and c = "Some 1" and s = "''7''" and h = "[\<lparr>conn_id = 0\<rparr>, \<lparr>conn_id = 0\<rparr>]"]
  by simp

text \<open>
  C9. Over any sequence of calls on a new pool (any arguments, accessors included),
  \<open>ConnectionsAlive()\<close> never decreases: its value after a sequence is at most its
  value after any longer sequence. It never exceeds the capacity, and the capacity never
  changes.
\<close>

theorem connectionsAlive_never_decreases:
  "ConnectionsAlive (fst (exec_calls cs (ConnectionPool_init n, h)))
     \<le> ConnectionsAlive (fst (exec_calls (cs @ cs') (ConnectionPool_init n, h))) \<and>
   ConnectionsAlive (fst (exec_calls cs (ConnectionPool_init n, h))) \<le> n \<and>
   PoolSize (fst (exec_calls cs (ConnectionPool_init n, h))) = n"
proof -
  let ?s = "exec_calls cs (ConnectionPool_init n, h)"
  have inv: "pool_inv (fst ?s)"
    by (rule pool_inv_exec_calls) (simp add: pool_inv_init)
  have size: "poolSize (fst ?s) = n" by (simp add: ConnectionPool_init_def)
  have "connectionsAlive (fst ?s) \<le> connectionsAlive (fst (exec_calls cs' ?s))"
    using inv by (rule alive_mono_exec_calls)
  moreover have "connectionsAlive (fst ?s) \<le> n"
    using pool_inv_alive_le [OF inv] size by simp
  ultimately show ?thesis
    using size by (simp add: ConnectionsAlive_def PoolSize_def exec_calls_append)
qed

text \<open>
  C10. \<open>FreeConnection\<close> moves from the caller's handle: after every call the
  caller's variable is null, and the value it had is the last element of the idle cache.
\<close>

theorem FreeConnection_nulls_handle:
  "fst (FreeConnection connection p) = None \<and>
   connections (snd (FreeConnection connection p)) = connections p @ [connection]"
  by (simp add: FreeConnection_def move_ptr_def)

section \<open>The threads refine the calls\<close>

lemma finish_Get_wait: "finish (Get_wait s) (p, h) = snd (GetConnection s p h)"
  by (cases rule: GetConnection_cases [where p = p and s = s and h = h])
     (simp_all add: finish_def Let_def word_gt_0 make_shared_def)

lemma finish_Free_push: "finish (Free_push ptr) (p, h) = (snd (FreeConnection ptr p), h)"
  by (simp add: finish_def Let_def FreeConnection_eq)

lemma critical_woken [simp]: "critical (woken l) = critical l"
  by (cases l) (simp_all add: woken_def critical_def)

lemma lock_inv_owner: "lock_inv c \<Longrightarrow> critical (pcs c t) \<Longrightarrow> mt c = Some t"
  by (simp add: lock_inv_def)

lemma lock_inv_other: "lock_inv c \<Longrightarrow> \<not> critical (pcs c t) \<Longrightarrow> mt c \<noteq> Some t"
  by (simp add: lock_inv_def)

text \<open>A move that keeps the owner of the mutex and the side of each thread.\<close>

lemma lock_inv_kept:
  assumes "lock_inv c" and "mt c' = mt c" and "\<And>u. critical (pcs c' u) = critical (pcs c u)"
  shows "lock_inv c'"
  using assms by (simp add: lock_inv_def)

lemma lock_inv_released:
  assumes "lock_inv c" and "mt c = Some t" and "mt c' = None" and "\<not> critical (pcs c' t)"
    and "\<And>u. u \<noteq> t \<Longrightarrow> critical (pcs c' u) = critical (pcs c u)"
  shows "lock_inv c'"
  unfolding lock_inv_def
proof
  fix u
  show "critical (pcs c' u) = (mt c' = Some u)"
  proof (cases "u = t")
    case True
    then show ?thesis using assms(3,4) by simp
  next
    case False
    then have "\<not> critical (pcs c u)" using assms(1,2) by (simp add: lock_inv_def)
    then show ?thesis using assms(3,5) False by simp
  qed
qed

lemma lock_inv_acquired:
  assumes "lock_inv c" and "mt c = None" and "mt c' = Some t" and "critical (pcs c' t)"
    and "\<And>u. u \<noteq> t \<Longrightarrow> pcs c' u = pcs c u"
  shows "lock_inv c'"
  unfolding lock_inv_def
proof
  fix u
  show "critical (pcs c' u) = (mt c' = Some u)"
  proof (cases "u = t")
    case True
    then show ?thesis using assms(3,4) by simp
  next
    case False
    then have "\<not> critical (pcs c u)" using assms(1,2) by (simp add: lock_inv_def)
    then show ?thesis using assms(3,5) False by simp
  qed
qed

lemma committed_owner: "mt c = Some t \<Longrightarrow> committed c = finish (pcs c t) (cpool c, cheap c)"
  by (simp add: committed_def)

lemma committed_unlocked: "mt c = None \<Longrightarrow> committed c = (cpool c, cheap c)"
  by (simp add: committed_def)

text \<open>Inside the critical section: each statement keeps what the section will commit.\<close>

lemma step_critical:
  assumes "step t k c = Some c'" and "lock_inv c" and "critical (pcs c t)"
  shows "lock_inv c' \<and> committed c' = committed c"
proof -
  have own: "mt c = Some t" using assms(2,3) by (rule lock_inv_owner)
  show ?thesis
  proof (cases "pcs c t")
    case (Get_wait s)
    show ?thesis
    proof (cases "0 < free (cpool c)")
      case True
      then have c': "c' = at t (Get_dec s) c" using assms(1) Get_wait by (simp add: step_def)
      have "lock_inv c'"
        using assms(2) by (rule lock_inv_kept) (simp_all add: c' at_def Get_wait critical_def)
      moreover have "committed c' = committed c"
        using True by (simp add: c' committed_def at_def own Get_wait finish_def Let_def)
      ultimately show ?thesis ..
    next
      case False
      then have c': "c' = at t (Get_blocked s) (c\<lparr>mt := None, cv := cv c @ [t]\<rparr>)"
        using assms(1) Get_wait by (simp add: step_def)
      have "lock_inv c'"
        using assms(2) own by (rule lock_inv_released) (simp_all add: c' at_def critical_def)
      moreover have "committed c' = committed c"
        using False by (simp add: c' committed_def at_def own Get_wait finish_def Let_def)
      ultimately show ?thesis ..
    qed
  next
    case (Get_dec s)
    then have c': "c' = at t (Get_test s) (c\<lparr>cpool := (cpool c)\<lparr>free := free (cpool c) - 1\<rparr>\<rparr>)"
      using assms(1) by (simp add: step_def)
    have "lock_inv c'"
      using assms(2) by (rule lock_inv_kept) (simp_all add: c' at_def Get_dec critical_def)
    moreover have "committed c' = committed c"
      by (simp add: c' committed_def at_def own Get_dec finish_def Let_def)
    ultimately show ?thesis ..
  next
    case (Get_test s)
    show ?thesis
    proof (cases "length (connections (cpool c)) = 0")
      case True
      then have c': "c' = at t (Get_new s) c" using assms(1) Get_test by (simp add: step_def)
      have "lock_inv c'"
        using assms(2) by (rule lock_inv_kept) (simp_all add: c' at_def Get_test critical_def)
      moreover have "committed c' = committed c"
        using True by (simp add: c' committed_def at_def own Get_test finish_def Let_def)
      ultimately show ?thesis ..
    next
      case False
      then have c': "c' = at t Get_back c" using assms(1) Get_test by (simp add: step_def)
      have "lock_inv c'"
        using assms(2) by (rule lock_inv_kept) (simp_all add: c' at_def Get_test critical_def)
      moreover have "committed c' = committed c"
        using False by (simp add: c' committed_def at_def own Get_test finish_def Let_def)
      ultimately show ?thesis ..
    qed
  next
    case (Get_new s)
    show ?thesis
    proof (cases "stoi s")
      case (Inl e)
      then have c': "c' = at t (Unwound e) (c\<lparr>mt := None\<rparr>)"
        using assms(1) Get_new by (simp add: step_def)
      have "lock_inv c'"
        using assms(2) own by (rule lock_inv_released) (simp_all add: c' at_def critical_def)
      moreover have "committed c' = committed c"
        using Inl by (simp add: c' committed_def at_def own Get_new finish_def Let_def)
      ultimately show ?thesis ..
    next
      case (Inr i)
      then have c': "c' = at t (Get_inc (Some (length (cheap c))))
                            (c\<lparr>cheap := cheap c @ [\<lparr>conn_id = i\<rparr>]\<rparr>)"
        using assms(1) Get_new by (simp add: step_def make_shared_def)
      have "lock_inv c'"
        using assms(2) by (rule lock_inv_kept) (simp_all add: c' at_def Get_new critical_def)
      moreover have "committed c' = committed c"
        using Inr
        by (simp add: c' committed_def at_def own Get_new finish_def Let_def make_shared_def)
      ultimately show ?thesis ..
    qed
  next
    case (Get_inc ptr)
    then have c': "c' = at t (Get_ret ptr)
        (c\<lparr>cpool := (cpool c)\<lparr>connectionsAlive := connectionsAlive (cpool c) + 1\<rparr>\<rparr>)"
      using assms(1) by (simp add: step_def)
    have "lock_inv c'"
      using assms(2) by (rule lock_inv_kept) (simp_all add: c' at_def Get_inc critical_def)
    moreover have "committed c' = committed c"
      by (simp add: c' committed_def at_def own Get_inc finish_def Let_def)
    ultimately show ?thesis ..
  next
    case Get_back
    then have c': "c' = at t (Get_pop (last (connections (cpool c)))) c"
      using assms(1) by (simp add: step_def)
    have "lock_inv c'"
      using assms(2) by (rule lock_inv_kept) (simp_all add: c' at_def Get_back critical_def)
    moreover have "committed c' = committed c"
      by (simp add: c' committed_def at_def own Get_back finish_def Let_def)
    ultimately show ?thesis ..
  next
    case (Get_pop ptr)
    then have c': "c' = at t (Get_ret ptr)
        (c\<lparr>cpool := (cpool c)\<lparr>connections := butlast (connections (cpool c))\<rparr>\<rparr>)"
      using assms(1) by (simp add: step_def)
    have "lock_inv c'"
      using assms(2) by (rule lock_inv_kept) (simp_all add: c' at_def Get_pop critical_def)
    moreover have "committed c' = committed c"
      by (simp add: c' committed_def at_def own Get_pop finish_def Let_def)
    ultimately show ?thesis ..
  next
    case (Get_ret ptr)
    then have c': "c' = at t (Outside ptr) (c\<lparr>mt := None\<rparr>)"
      using assms(1) by (simp add: step_def)
    have "lock_inv c'"
      using assms(2) own by (rule lock_inv_released) (simp_all add: c' at_def critical_def)
    moreover have "committed c' = committed c"
      by (simp add: c' committed_def at_def own Get_ret finish_def Let_def)
    ultimately show ?thesis ..
  next
    case (Free_push ptr)
    then have c': "c' = at t Free_inc
        (c\<lparr>cpool := (cpool c)\<lparr>connections := connections (cpool c) @ [ptr]\<rparr>\<rparr>)"
      using assms(1) by (simp add: step_def move_ptr_def)
    have "lock_inv c'"
      using assms(2) by (rule lock_inv_kept) (simp_all add: c' at_def Free_push critical_def)
    moreover have "committed c' = committed c"
      by (simp add: c' committed_def at_def own Free_push finish_def Let_def)
    ultimately show ?thesis ..
  next
    case Free_inc
    then have c': "c' = at t Free_notify (c\<lparr>cpool := (cpool c)\<lparr>free := free (cpool c) + 1\<rparr>\<rparr>)"
      using assms(1) by (simp add: step_def)
    have "lock_inv c'"
      using assms(2) by (rule lock_inv_kept) (simp_all add: c' at_def Free_inc critical_def)
    moreover have "committed c' = committed c"
      by (simp add: c' committed_def at_def own Free_inc finish_def Let_def)
    ultimately show ?thesis ..
  next
    case Free_notify
    then have c': "c' = at t (Outside None) ((notify_one k c)\<lparr>mt := None\<rparr>)"
      using assms(1) by (simp add: step_def)
    have "lock_inv c'"
      using assms(2) own
    proof (rule lock_inv_released)
      show "mt c' = None" by (simp add: c' at_def)
      show "\<not> critical (pcs c' t)" by (simp add: c' at_def critical_def)
      show "critical (pcs c' u) = critical (pcs c u)" if "u \<noteq> t" for u
        using that by (simp add: c' at_def notify_one_def Let_def)
    qed
    moreover have "committed c' = committed c"
      by (simp add: c' committed_def at_def own Free_notify finish_def Let_def notify_one_def)
    ultimately show ?thesis ..
  qed (use assms(3) in \<open>simp_all add: critical_def\<close>)
qed


text \<open>Outside the critical sections: a move that is not a lock changes nothing shared.\<close>

lemma outside_move:
  assumes "lock_inv c" and "\<not> critical (pcs c t)" and "\<not> critical l"
    and "cpool c' = cpool c" and "cheap c' = cheap c" and "mt c' = mt c"
    and "pcs c' = (pcs c)(t := l)"
  shows "lock_inv c' \<and> committed c' = committed c"
proof
  show "lock_inv c'"
    using assms(1,6) by (rule lock_inv_kept) (simp add: assms(2,3,7))
  have "mt c \<noteq> Some t" using assms(1,2) by (rule lock_inv_other)
  then show "committed c' = committed c"
    by (auto simp: committed_def assms(4-7) split: option.splits)
qed

lemma at_outside:
  assumes "lock_inv c" and "\<not> critical (pcs c t)" and "\<not> critical l"
  shows "lock_inv (at t l c) \<and> committed (at t l c) = committed c"
  using assms by (rule outside_move) (simp_all add: at_def)

lemma step_lock:
  assumes "lock_inv c" and "mt c = None" and "critical l"
  shows "lock_inv (at t l (c\<lparr>mt := Some t\<rparr>)) \<and>
         committed (at t l (c\<lparr>mt := Some t\<rparr>)) = finish l (cpool c, cheap c)"
proof
  show "lock_inv (at t l (c\<lparr>mt := Some t\<rparr>))"
    using assms(1,2) by (rule lock_inv_acquired [where t = t]) (simp_all add: at_def assms(3))
  show "committed (at t l (c\<lparr>mt := Some t\<rparr>)) = finish l (cpool c, cheap c)"
    by (simp add: committed_def at_def)
qed

lemma step_outside:
  assumes "step t k c = Some c'" and "lock_inv c" and "\<not> critical (pcs c t)"
  shows "lock_inv c' \<and>
         (committed c' = committed c \<or> (\<exists>x. committed c' = exec_call x (committed c)))"
proof (cases "pcs c t")
  case (Get_lock s)
  then have free: "mt c = None" and c': "c' = at t (Get_wait s) (c\<lparr>mt := Some t\<rparr>)"
    using assms(1) by (auto simp: step_def split: if_splits)
  have "critical (Get_wait s)" by (simp add: critical_def)
  then have "lock_inv c' \<and> committed c' = finish (Get_wait s) (cpool c, cheap c)"
    unfolding c' using assms(2) free by (intro step_lock)
  moreover have "finish (Get_wait s) (cpool c, cheap c)
                   = exec_call (CallGetConnection s) (committed c)"
    by (simp add: committed_unlocked [OF free] finish_Get_wait)
  ultimately show ?thesis by auto
next
  case (Free_lock ptr)
  then have free: "mt c = None" and c': "c' = at t (Free_push ptr) (c\<lparr>mt := Some t\<rparr>)"
    using assms(1) by (auto simp: step_def split: if_splits)
  have "critical (Free_push ptr)" by (simp add: critical_def)
  then have "lock_inv c' \<and> committed c' = finish (Free_push ptr) (cpool c, cheap c)"
    unfolding c' using assms(2) free by (intro step_lock)
  moreover have "finish (Free_push ptr) (cpool c, cheap c)
                   = exec_call (CallFreeConnection ptr) (committed c)"
    by (simp add: committed_unlocked [OF free] finish_Free_push)
  ultimately show ?thesis by auto
next
  case Main_spin
  then have "c' = c \<or> c' = at t (Main_inuse 0) c"
    using assms(1) by (auto simp: step_def split: if_splits)
  then show ?thesis
    using assms(2) at_outside [OF assms(2,3), of "Main_inuse 0"] by (auto simp: critical_def)
next
  case (Main_inuse i)
  then have "c' = at t (Main_alive i (ConnectionsInUse (cpool c))) c \<or> c' = at t Main_join c"
    using assms(1) by (auto simp: step_def split: if_splits)
  then show ?thesis
    using at_outside [OF assms(2,3), of "Main_alive i (ConnectionsInUse (cpool c))"]
      at_outside [OF assms(2,3), of Main_join]
    by (auto simp: critical_def)
next
  case (Main_alive i u)
  then have "c' = at t (Main_size i u (ConnectionsAlive (cpool c))) c"
    using assms(1) by (simp add: step_def)
  then show ?thesis
    using at_outside [OF assms(2,3), of "Main_size i u (ConnectionsAlive (cpool c))"]
    by (auto simp: critical_def)
next
  case (Main_size i u a)
  then have "c' = at t (Main_assert1 i u a (PoolSize (cpool c))) c"
    using assms(1) by (simp add: step_def)
  then show ?thesis
    using at_outside [OF assms(2,3), of "Main_assert1 i u a (PoolSize (cpool c))"]
    by (auto simp: critical_def)
next
  case (Main_assert1 i u a n)
  then have "c' = at t (Main_assert2 i u a n) c \<or> c' = at t (Assert_failed 166) c"
    using assms(1) by (auto simp: step_def split: if_splits)
  then show ?thesis
    using at_outside [OF assms(2,3), of "Main_assert2 i u a n"]
      at_outside [OF assms(2,3), of "Assert_failed 166"]
    by (auto simp: critical_def)
next
  case (Main_assert2 i u a n)
  then have "c' = at t (Main_inuse (Suc i)) c \<or> c' = at t (Assert_failed 167) c"
    using assms(1) by (auto simp: step_def split: if_splits)
  then show ?thesis
    using at_outside [OF assms(2,3), of "Main_inuse (Suc i)"]
      at_outside [OF assms(2,3), of "Assert_failed 167"]
    by (auto simp: critical_def)
qed (use assms(1,3) in \<open>simp_all add: step_def critical_def\<close>)

lemma act_refines:
  assumes "act a c = Some c'" and "lock_inv c"
  shows "lock_inv c' \<and>
         (committed c' = committed c \<or> (\<exists>x. committed c' = exec_call x (committed c)))"
proof (cases a)
  case (Run t k)
  then have s: "step t k c = Some c'" using assms(1) by simp
  show ?thesis
  proof (cases "critical (pcs c t)")
    case True
    then show ?thesis using step_critical [OF s assms(2)] by simp
  next
    case False
    then show ?thesis using s assms(2) by (rule step_outside[rotated 2])
  qed
next
  case (Spurious t)
  then obtain s where pc: "pcs c t = Get_blocked s"
    and c': "c' = at t (Get_lock s) (c\<lparr>cv := removeAll t (cv c)\<rparr>)"
    using assms(1) by (auto split: pc.splits)
  have "lock_inv c' \<and> committed c' = committed c"
    using assms(2)
    by (rule outside_move [where t = t and l = "Get_lock s"])
       (simp_all add: pc c' at_def critical_def)
  then show ?thesis by simp
next
  case (Call_GetConnection t s)
  then obtain ptr where pc: "pcs c t = Outside ptr" and c': "c' = at t (Get_lock s) c"
    using assms(1) by (auto split: pc.splits)
  have "lock_inv c' \<and> committed c' = committed c"
    unfolding c' using assms(2) by (rule at_outside) (simp_all add: pc critical_def)
  then show ?thesis by simp
next
  case (Call_FreeConnection t)
  then obtain ptr where pc: "pcs c t = Outside ptr" and c': "c' = at t (Free_lock ptr) c"
    using assms(1) by (auto split: pc.splits)
  have "lock_inv c' \<and> committed c' = committed c"
    unfolding c' using assms(2) by (rule at_outside) (simp_all add: pc critical_def)
  then show ?thesis by simp
next
  case (Call_monitor t)
  then obtain ptr where pc: "pcs c t = Outside ptr" and c': "c' = at t Main_spin c"
    using assms(1) by (auto split: pc.splits)
  have "lock_inv c' \<and> committed c' = committed c"
    unfolding c' using assms(2) by (rule at_outside) (simp_all add: pc critical_def)
  then show ?thesis by simp
qed

lemma acts_refines:
  assumes "acts as c = Some c'" and "lock_inv c"
  shows "lock_inv c' \<and> (\<exists>xs. committed c' = exec_calls xs (committed c))"
  using assms
proof (induction as arbitrary: c)
  case Nil
  then have "c' = c" by simp
  then have "committed c' = exec_calls [] (committed c)" by simp
  then have "\<exists>xs. committed c' = exec_calls xs (committed c)" ..
  then show ?case using Nil.prems(2) \<open>c' = c\<close> by simp
next
  case (Cons a as)
  then obtain d where d: "act a c = Some d" and rest: "acts as d = Some c'"
    by (auto split: option.splits)
  have inv: "lock_inv d"
    and one: "committed d = committed c \<or> (\<exists>x. committed d = exec_call x (committed c))"
    using act_refines [OF d Cons.prems(2)] by simp_all
  obtain xs where xs: "committed c' = exec_calls xs (committed d)" and l: "lock_inv c'"
    using Cons.IH [OF rest inv] by blast
  from one show ?case
  proof
    assume "committed d = committed c"
    then show ?thesis using xs l by auto
  next
    assume "\<exists>x. committed d = exec_call x (committed c)"
    then obtain x where "committed d = exec_call x (committed c)" ..
    then have "committed c' = exec_calls (x # xs) (committed c)" using xs by simp
    then show ?thesis using l by blast
  qed
qed

text \<open>
  Whatever the threads do and however they are interleaved: a thread is inside a critical
  section exactly when it owns the mutex, and whenever the mutex is free the pool and the
  store are what some sequence of whole calls produces from the new pool. The functions of
  the first part therefore describe every state that the threaded program shows between
  critical sections.
\<close>

lemma lock_inv_start: "lock_inv (start n)"
  by (simp add: lock_inv_def start_def critical_def)

lemma quiescent_pool_is_reached_by_calls:
  assumes "acts as (start n) = Some c" and "mt c = None"
  shows "\<exists>xs. (cpool c, cheap c) = exec_calls xs (ConnectionPool_init n, [])"
proof -
  obtain xs where "committed c = exec_calls xs (committed (start n))"
    using acts_refines [OF assms(1) lock_inv_start] by blast
  moreover have "committed (start n) = (ConnectionPool_init n, [])"
    by (simp add: committed_def start_def)
  ultimately show ?thesis using assms(2) by (auto simp: committed_unlocked)
qed

lemma mutual_exclusion:
  assumes "acts as (start n) = Some c"
  shows "critical (pcs c t) = (mt c = Some t)"
  using acts_refines [OF assms lock_inv_start] by (simp add: lock_inv_def)

subsection \<open>Critical sections are short\<close>

text \<open>
  No thread waits while it holds the mutex: the owner can always execute its next
  statement, and run alone it has released the mutex after at most six of them. Which
  thread then gets the mutex, and so how long a thread waits at the lock of
  \<open>GetConnection\<close> or \<open>FreeConnection\<close>, is the scheduler's choice and is not
  bounded here.
\<close>

lemma owner_can_step:
  assumes "lock_inv c" and "mt c = Some u"
  shows "step u k c \<noteq> None"
proof -
  have "critical (pcs c u)" using assms by (simp add: lock_inv_def)
  then show ?thesis
    by (cases "pcs c u") (simp_all add: critical_def step_def Let_def split: sum.splits prod.splits)
qed

lemma releases_now: "step u 0 c = Some c' \<Longrightarrow> mt c' = None \<Longrightarrow> releases u (Suc n) c"
  unfolding releases_def by (rule exI [of _ 1]) simp

lemma releases_step: "step u 0 c = Some c' \<Longrightarrow> releases u n c' \<Longrightarrow> releases u (Suc n) c"
  unfolding releases_def
proof -
  assume s: "step u 0 c = Some c'"
    and "\<exists>m\<le>n. \<exists>d. acts (replicate m (Run u 0)) c' = Some d \<and> mt d = None"
  then obtain m d where m: "m \<le> n" and d: "acts (replicate m (Run u 0)) c' = Some d" "mt d = None"
    by blast
  have "acts (replicate (Suc m) (Run u 0)) c = Some d" using s d(1) by simp
  then show "\<exists>m\<le>Suc n. \<exists>d. acts (replicate m (Run u 0)) c = Some d \<and> mt d = None"
    using m d(2) by (intro exI [of _ "Suc m"]) simp
qed

lemma releases_mono: "releases u n c \<Longrightarrow> n \<le> n' \<Longrightarrow> releases u n' c"
  unfolding releases_def by (meson le_trans)

lemmas statement_simps = step_def at_def make_shared_def move_ptr_def

lemma rel_ret: "pcs c u = Get_ret ptr \<Longrightarrow> releases u (Suc 0) c"
  by (rule releases_now, simp add: statement_simps, simp)

lemma rel_notify: "pcs c u = Free_notify \<Longrightarrow> releases u (Suc 0) c"
  by (rule releases_now, simp add: statement_simps, simp)

lemma rel_inc: "pcs c u = Get_inc ptr \<Longrightarrow> releases u (Suc (Suc 0)) c"
  by (rule releases_step, simp add: statement_simps, rule rel_ret, simp)

lemma rel_pop: "pcs c u = Get_pop ptr \<Longrightarrow> releases u (Suc (Suc 0)) c"
  by (rule releases_step, simp add: statement_simps, rule rel_ret, simp)

lemma rel_back: "pcs c u = Get_back \<Longrightarrow> releases u (Suc (Suc (Suc 0))) c"
  by (rule releases_step, simp add: statement_simps, rule rel_pop, simp)

lemma rel_new: "pcs c u = Get_new s \<Longrightarrow> releases u (Suc (Suc (Suc 0))) c"
proof (cases "stoi s")
  case (Inl e)
  assume "pcs c u = Get_new s"
  then have "releases u (Suc 0) c"
    using Inl by - (rule releases_now, simp add: statement_simps, simp)
  then show ?thesis by (rule releases_mono) simp
next
  case (Inr i)
  assume "pcs c u = Get_new s"
  then show ?thesis
    using Inr by - (rule releases_step, simp add: statement_simps, rule rel_inc, simp)
qed

lemma rel_test: "pcs c u = Get_test s \<Longrightarrow> releases u (Suc (Suc (Suc (Suc 0)))) c"
proof (cases "length (connections (cpool c)) = 0")
  case True
  assume "pcs c u = Get_test s"
  then show ?thesis
    using True by - (rule releases_step, simp add: statement_simps, rule rel_new, simp)
next
  case False
  assume "pcs c u = Get_test s"
  then show ?thesis
    using False by - (rule releases_step, simp add: statement_simps, rule rel_back, simp)
qed

lemma rel_dec: "pcs c u = Get_dec s \<Longrightarrow> releases u (Suc (Suc (Suc (Suc (Suc 0))))) c"
  by (rule releases_step, simp add: statement_simps, rule rel_test, simp)

lemma rel_wait: "pcs c u = Get_wait s \<Longrightarrow> releases u (Suc (Suc (Suc (Suc (Suc (Suc 0)))))) c"
proof (cases "0 < free (cpool c)")
  case True
  assume "pcs c u = Get_wait s"
  then show ?thesis
    using True by - (rule releases_step, simp add: statement_simps, rule rel_dec, simp)
next
  case False
  assume "pcs c u = Get_wait s"
  then have "releases u (Suc 0) c"
    using False by - (rule releases_now, simp add: statement_simps, simp)
  then show ?thesis by (rule releases_mono) simp
qed

lemma rel_Free_inc: "pcs c u = Free_inc \<Longrightarrow> releases u (Suc (Suc 0)) c"
  by (rule releases_step, simp add: statement_simps, rule rel_notify, simp)

lemma rel_Free_push: "pcs c u = Free_push ptr \<Longrightarrow> releases u (Suc (Suc (Suc 0))) c"
  by (rule releases_step, simp add: statement_simps, rule rel_Free_inc, simp)

lemma mutex_is_released:
  assumes "lock_inv c" and "mt c = Some u"
  shows "\<exists>m\<le>6. \<exists>c'. acts (replicate m (Run u 0)) c = Some c' \<and> mt c' = None"
proof -
  have crit: "critical (pcs c u)" using assms by (simp add: lock_inv_def)
  have "releases u 6 c"
  proof (cases "pcs c u")
    case (Get_wait s) then show ?thesis by (intro releases_mono [OF rel_wait]) simp_all
  next
    case (Get_dec s) then show ?thesis by (intro releases_mono [OF rel_dec]) simp_all
  next
    case (Get_test s) then show ?thesis by (intro releases_mono [OF rel_test]) simp_all
  next
    case (Get_new s) then show ?thesis by (intro releases_mono [OF rel_new]) simp_all
  next
    case (Get_inc ptr) then show ?thesis by (intro releases_mono [OF rel_inc]) simp_all
  next
    case Get_back then show ?thesis by (intro releases_mono [OF rel_back]) simp_all
  next
    case (Get_pop ptr) then show ?thesis by (intro releases_mono [OF rel_pop]) simp_all
  next
    case (Get_ret ptr) then show ?thesis by (intro releases_mono [OF rel_ret]) simp_all
  next
    case (Free_push ptr) then show ?thesis by (intro releases_mono [OF rel_Free_push]) simp_all
  next
    case Free_inc then show ?thesis by (intro releases_mono [OF rel_Free_inc]) simp_all
  next
    case Free_notify then show ?thesis by (intro releases_mono [OF rel_notify]) simp_all
  qed (use crit in \<open>simp_all add: critical_def\<close>)
  then show ?thesis by (simp add: releases_def)
qed

section \<open>Ownership under statement-level interleaving\<close>

lemma holds_woken [simp]: "holds (woken l) = holds l"
  by (cases l) (simp_all add: woken_def holds_def)

lemma will_hold_outside: "\<not> critical (pcs c u) \<Longrightarrow> will_hold c u = holds (pcs c u)"
  by (cases "pcs c u") (simp_all add: will_hold_def holds_def critical_def Let_def)

text \<open>A statement of the owner leaves the other threads' handles alone.\<close>

lemma others_hold:
  assumes "lock_inv c" and "mt c = Some t" and "lock_inv c'"
    and "mt c' = Some t \<or> mt c' = None"
    and "\<And>u. u \<noteq> t \<Longrightarrow> holds (pcs c' u) = holds (pcs c u)"
    and "u \<noteq> t"
  shows "will_hold c' u = will_hold c u"
proof -
  have "\<not> critical (pcs c u)" using assms(1,2,6) by (simp add: lock_inv_def)
  moreover have "\<not> critical (pcs c' u)" using assms(3,4,6) by (auto simp: lock_inv_def)
  ultimately show ?thesis using assms(5,6) by (simp add: will_hold_outside)
qed

lemma step_critical_holds:
  assumes "step t k c = Some c'" and "lock_inv c" and "critical (pcs c t)"
  shows "will_hold c' u = will_hold c u \<and> (pcs c' u = Free_lock None \<longrightarrow> pcs c u = Free_lock None)"
proof -
  have own: "mt c = Some t" using assms(2,3) by (rule lock_inv_owner)
  have inv': "lock_inv c'" using step_critical [OF assms] by simp
  have main: "will_hold c' t = will_hold c t \<and> (mt c' = Some t \<or> mt c' = None) \<and>
              (\<forall>u. u \<noteq> t \<longrightarrow> pcs c' u = pcs c u \<or> pcs c' u = woken (pcs c u)) \<and>
              pcs c' t \<noteq> Free_lock None"
  proof (cases "pcs c t")
    case (Get_wait s)
    then show ?thesis using assms(1) own
      by (auto simp: step_def at_def will_hold_def Let_def split: if_splits sum.splits)
  next
    case (Get_dec s)
    then show ?thesis using assms(1) own
      by (auto simp: step_def at_def will_hold_def Let_def split: if_splits sum.splits)
  next
    case (Get_test s)
    then show ?thesis using assms(1) own
      by (auto simp: step_def at_def will_hold_def Let_def split: if_splits sum.splits)
  next
    case (Get_new s)
    then show ?thesis using assms(1) own
      by (cases "stoi s") (auto simp: step_def at_def will_hold_def Let_def make_shared_def)
  next
    case (Get_inc ptr)
    then show ?thesis using assms(1) own
      by (auto simp: step_def at_def will_hold_def Let_def split: sum.splits)
  next
    case Get_back
    then show ?thesis using assms(1) own
      by (auto simp: step_def at_def will_hold_def Let_def split: sum.splits)
  next
    case (Get_pop ptr)
    then show ?thesis using assms(1) own
      by (auto simp: step_def at_def will_hold_def Let_def split: sum.splits)
  next
    case (Get_ret ptr)
    then show ?thesis using assms(1) own
      by (auto simp: step_def at_def will_hold_def Let_def split: sum.splits)
  next
    case (Free_push ptr)
    then show ?thesis using assms(1) own
      by (auto simp: step_def at_def will_hold_def Let_def move_ptr_def)
  next
    case Free_inc
    then show ?thesis using assms(1) own
      by (auto simp: step_def at_def will_hold_def Let_def split: sum.splits)
  next
    case Free_notify
    then show ?thesis using assms(1) own
      by (auto simp: step_def at_def will_hold_def Let_def notify_one_def)
  qed (use assms(3) in \<open>simp_all add: critical_def\<close>)
  show ?thesis
  proof (cases "u = t")
    case True
    have "pcs c t \<noteq> Free_lock None" using assms(3) by (auto simp: critical_def)
    then show ?thesis using main True by simp
  next
    case False
    have h: "\<And>v. v \<noteq> t \<Longrightarrow> holds (pcs c' v) = holds (pcs c v)"
      using main by (metis holds_woken)
    have "will_hold c' u = will_hold c u"
      using assms(2) own inv' _ h False by (rule others_hold) (use main in simp)
    moreover have "pcs c' u = Free_lock None \<longrightarrow> pcs c u = Free_lock None"
    proof -
      have "pcs c' u = pcs c u \<or> pcs c' u = woken (pcs c u)" using main False by simp
      then show ?thesis by (cases "pcs c u") (auto simp: woken_def)
    qed
    ultimately show ?thesis by simp
  qed
qed


subsection \<open>Ownership, as a property of a cache and the threads' handles\<close>

lemma inj_upd:
  assumes inj: "\<And>u v. W u = W v \<Longrightarrow> u = v \<or> W u = None"
    and nx: "\<And>u. u \<noteq> t \<Longrightarrow> W u \<noteq> x \<or> x = None"
  shows "\<forall>u v. (W(t := x)) u = (W(t := x)) v \<longrightarrow> u = v \<or> (W(t := x)) u = None"
proof (intro allI impI)
  fix u v
  assume e: "(W(t := x)) u = (W(t := x)) v"
  show "u = v \<or> (W(t := x)) u = None"
  proof (cases "u = t")
    case ut: True
    show ?thesis
    proof (cases "v = t")
      case True
      then show ?thesis using ut by simp
    next
      case False
      then have "W v = x" using e ut by simp
      then show ?thesis using nx [OF False] ut by simp
    qed
  next
    case ut: False
    show ?thesis
    proof (cases "v = t")
      case True
      then have "W u = x" using e ut by simp
      then show ?thesis using nx [OF ut] ut by simp
    next
      case False
      then show ?thesis using e ut inj by simp
    qed
  qed
qed

lemma owns_take:
  assumes "owns cs n W" and "cs \<noteq> []" and "W t = None"
  shows "owns (butlast cs) n (W(t := last cs))"
proof -
  obtain xs x where cs: "cs = xs @ [x]" using assms(2) by (metis append_butlast_last_id)
  have d: "distinct xs" and x: "x \<notin> set xs" using assms(1) cs by (simp_all add: owns_def)
  have sub: "set xs \<subseteq> Some ` {..<n}" and xin: "x \<in> Some ` {..<n}"
    using assms(1) cs by (simp_all add: owns_def)
  have out: "\<And>u. W u \<notin> set xs" and nx: "\<And>u. W u \<noteq> x"
    using assms(1) cs by (auto simp: owns_def)
  have inj: "\<And>u v. W u = W v \<Longrightarrow> u = v \<or> W u = None"
    using assms(1) by (simp add: owns_def)
  have bnd: "\<And>u a. W u = Some a \<Longrightarrow> a < n" using assms(1) by (simp add: owns_def)
  have cov: "\<And>a. a < n \<Longrightarrow> Some a \<in> set xs \<or> Some a = x \<or> (\<exists>u. W u = Some a)"
    using assms(1) cs by (auto simp: owns_def)
  have "\<forall>a<n. Some a \<in> set xs \<or> (\<exists>u. (W(t := x)) u = Some a)"
  proof (intro allI impI)
    fix a assume "a < n"
    then consider "Some a \<in> set xs" | "Some a = x" | u where "W u = Some a"
      using cov by blast
    then show "Some a \<in> set xs \<or> (\<exists>u. (W(t := x)) u = Some a)"
    proof cases
      case 3
      then have "u \<noteq> t" using assms(3) by auto
      then have "(W(t := x)) u = Some a" using 3 by simp
      then show ?thesis by blast
    qed auto
  qed
  moreover have "\<forall>u v. (W(t := x)) u = (W(t := x)) v \<longrightarrow> u = v \<or> (W(t := x)) u = None"
    using inj nx by (intro inj_upd) auto
  moreover have "\<forall>u a. (W(t := x)) u = Some a \<longrightarrow> a < n"
    using bnd xin by (auto simp: fun_upd_def)
  moreover have "\<forall>u. (W(t := x)) u \<notin> set xs"
    using out x by (auto simp: fun_upd_def)
  ultimately show ?thesis using d sub by (simp add: owns_def cs)
qed

lemma owns_new:
  assumes "owns cs n W" and "W t = None"
  shows "owns cs (Suc n) (W(t := Some n))"
proof -
  have d: "distinct cs" and sub: "set cs \<subseteq> Some ` {..<n}"
    using assms(1) by (simp_all add: owns_def)
  have fresh: "Some n \<notin> set cs" using sub by auto
  have out: "\<And>u. W u \<notin> set cs" using assms(1) by (simp add: owns_def)
  have inj: "\<And>u v. W u = W v \<Longrightarrow> u = v \<or> W u = None"
    using assms(1) by (simp add: owns_def)
  have bnd: "\<And>u a. W u = Some a \<Longrightarrow> a < n" using assms(1) by (simp add: owns_def)
  have cov: "\<And>a. a < n \<Longrightarrow> Some a \<in> set cs \<or> (\<exists>u. W u = Some a)"
    using assms(1) by (simp add: owns_def)
  have nn: "\<And>u. W u \<noteq> Some n" using bnd by blast
  have "\<forall>a<Suc n. Some a \<in> set cs \<or> (\<exists>u. (W(t := Some n)) u = Some a)"
  proof (intro allI impI)
    fix a assume "a < Suc n"
    then consider "a = n" | "a < n" "Some a \<in> set cs" | u where "a < n" "W u = Some a"
      using cov by (metis less_Suc_eq)
    then show "Some a \<in> set cs \<or> (\<exists>u. (W(t := Some n)) u = Some a)"
    proof cases
      case 1
      then have "(W(t := Some n)) t = Some a" by simp
      then show ?thesis by blast
    next
      case 3
      then have "u \<noteq> t" using assms(2) by auto
      then have "(W(t := Some n)) u = Some a" using 3 by simp
      then show ?thesis by blast
    qed auto
  qed
  moreover have "\<forall>u v. (W(t := Some n)) u = (W(t := Some n)) v
                    \<longrightarrow> u = v \<or> (W(t := Some n)) u = None"
    using inj nn by (intro inj_upd) auto
  moreover have "\<forall>u a. (W(t := Some n)) u = Some a \<longrightarrow> a < Suc n"
    using bnd by (auto simp: fun_upd_def less_Suc_eq)
  moreover have "\<forall>u. (W(t := Some n)) u \<notin> set cs"
    using out fresh by (auto simp: fun_upd_def)
  moreover have "set cs \<subseteq> Some ` {..<Suc n}" using sub by auto
  ultimately show ?thesis using d by (simp add: owns_def)
qed

lemma owns_give:
  assumes "owns cs n W" and "W t = Some a"
  shows "owns (cs @ [Some a]) n (W(t := None))"
proof -
  have d: "distinct cs" and sub: "set cs \<subseteq> Some ` {..<n}"
    using assms(1) by (simp_all add: owns_def)
  have out: "\<And>u. W u \<notin> set cs" using assms(1) by (simp add: owns_def)
  have inj: "\<And>u v. W u = W v \<Longrightarrow> u = v \<or> W u = None"
    using assms(1) by (simp add: owns_def)
  have bnd: "\<And>u b. W u = Some b \<Longrightarrow> b < n" using assms(1) by (simp add: owns_def)
  have cov: "\<And>b. b < n \<Longrightarrow> Some b \<in> set cs \<or> (\<exists>u. W u = Some b)"
    using assms(1) by (simp add: owns_def)
  have a: "a < n" and ac: "Some a \<notin> set cs" using bnd out assms(2) by (blast, metis)
  have other: "\<And>u. u \<noteq> t \<Longrightarrow> W u \<noteq> Some a" using inj assms(2) by (metis option.distinct(1))
  have none: "None \<notin> set cs" using sub by auto
  have "\<forall>b<n. Some b \<in> set (cs @ [Some a]) \<or> (\<exists>u. (W(t := None)) u = Some b)"
  proof (intro allI impI)
    fix b assume "b < n"
    then consider "Some b \<in> set cs" | u where "W u = Some b"
      using cov by blast
    then show "Some b \<in> set (cs @ [Some a]) \<or> (\<exists>u. (W(t := None)) u = Some b)"
    proof cases
      case 2
      show ?thesis
      proof (cases "u = t")
        case True
        then have "b = a" using 2 assms(2) by simp
        then show ?thesis by simp
      next
        case False
        then have "(W(t := None)) u = Some b" using 2 by simp
        then show ?thesis by blast
      qed
    qed auto
  qed
  moreover have "\<forall>u v. (W(t := None)) u = (W(t := None)) v
                    \<longrightarrow> u = v \<or> (W(t := None)) u = None"
    using inj by (intro inj_upd) auto
  moreover have "\<forall>u b. (W(t := None)) u = Some b \<longrightarrow> b < n"
    using bnd by (auto simp: fun_upd_def)
  moreover have "\<forall>u. (W(t := None)) u \<notin> set (cs @ [Some a])"
    using out other none by (auto simp: fun_upd_def)
  moreover have "set (cs @ [Some a]) \<subseteq> Some ` {..<n}" using sub a by auto
  moreover have "distinct (cs @ [Some a])" using d ac by simp
  ultimately show ?thesis by (simp only: owns_def) blast
qed

subsection \<open>Ownership is kept by every move of a correctly used program\<close>

lemma owned_inv_same:
  assumes "owned_inv c" and "committed c' = committed c"
    and "\<And>u. will_hold c' u = will_hold c u"
    and "\<And>u. pcs c' u = Free_lock None \<Longrightarrow> pcs c u = Free_lock None"
  shows "owned_inv c'"
proof -
  have "will_hold c' = will_hold c" using assms(3) by (rule ext)
  then show ?thesis using assms(1,2,4) by (auto simp: owned_inv_def)
qed

lemma owned_inv_outside:
  assumes "owned_inv c" and "lock_inv c" and "\<not> critical (pcs c t)" and "\<not> critical l"
    and "holds l = holds (pcs c t)" and "l \<noteq> Free_lock None"
    and "cpool c' = cpool c" and "cheap c' = cheap c" and "mt c' = mt c"
    and "pcs c' = (pcs c)(t := l)"
  shows "owned_inv c'"
  using assms(1)
proof (rule owned_inv_same)
  show "committed c' = committed c"
    using outside_move [OF assms(2,3,4,7,8,9,10)] by simp
  show "will_hold c' u = will_hold c u" for u
  proof (cases "u = t")
    case True
    have "\<not> critical (pcs c' t)" using assms(4,10) by simp
    then show ?thesis using True assms(3,5,10) by (simp add: will_hold_outside)
  next
    case False
    then show ?thesis by (simp add: will_hold_def assms(7,8,10))
  qed
  show "pcs c u = Free_lock None" if "pcs c' u = Free_lock None" for u
    using that assms(6,10) by (cases "u = t") simp_all
qed

lemma owned_inv_at:
  assumes "owned_inv c" and "lock_inv c" and "\<not> critical (pcs c t)" and "\<not> critical l"
    and "holds l = holds (pcs c t)" and "l \<noteq> Free_lock None"
  shows "owned_inv (at t l c)"
  using assms by (rule owned_inv_outside) (simp_all add: at_def)

lemma owned_inv_Get_lock:
  assumes "owned_inv c" and "lock_inv c" and "mt c = None" and "pcs c t = Get_lock s"
  shows "owned_inv (at t (Get_wait s) (c\<lparr>mt := Some t\<rparr>))"
proof -
  let ?c' = "at t (Get_wait s) (c\<lparr>mt := Some t\<rparr>)"
  let ?p = "cpool c" and ?h = "cheap c" and ?W = "will_hold c"
  have com: "committed c = (?p, ?h)" using assms(3) by (rule committed_unlocked)
  have o: "owns (connections ?p) (length ?h) ?W"
    using assms(1) by (simp add: owned_inv_def com)
  have wt: "?W t = None" by (simp add: will_hold_def assms(4))
  have "critical (Get_wait s)" by (simp add: critical_def)
  then have com': "committed ?c' = snd (GetConnection s ?p ?h)"
    using step_lock [OF assms(2,3), of "Get_wait s" t] by (simp add: finish_Get_wait)
  have others: "will_hold ?c' u = ?W u" if "u \<noteq> t" for u
    using that by (simp add: will_hold_def at_def)
  have nofree: "\<forall>u. pcs ?c' u \<noteq> Free_lock None"
    using assms(1) by (simp add: owned_inv_def at_def)
  have "owns (connections (fst (committed ?c'))) (length (snd (committed ?c'))) (will_hold ?c')"
  proof (cases rule: GetConnection_cases [where p = ?p and s = s and h = ?h])
    case blocked
    have "will_hold ?c' t = None" using blocked(1) by (simp add: will_hold_def at_def)
    then have "will_hold ?c' = ?W" using others wt by (intro ext) metis
    then show ?thesis using o blocked(2) by (simp add: com')
  next
    case reuse
    have "will_hold ?c' t = last (connections ?p)"
      using reuse(1,2) by (simp add: will_hold_def at_def word_gt_0)
    then have "will_hold ?c' = ?W(t := last (connections ?p))"
      using others by (intro ext) simp
    then show ?thesis using owns_take [OF o reuse(2) wt] reuse(3) by (simp add: com')
  next
    case (grow i)
    have "will_hold ?c' t = Some (length ?h)"
      using grow(1,2,3) by (simp add: will_hold_def at_def word_gt_0 make_shared_def)
    then have "will_hold ?c' = ?W(t := Some (length ?h))"
      using others by (intro ext) simp
    then show ?thesis using owns_new [OF o wt] grow(4) by (simp add: com')
  next
    case (throw e)
    have "will_hold ?c' t = None"
      using throw(1,2,3) by (simp add: will_hold_def at_def word_gt_0)
    then have "will_hold ?c' = ?W" using others wt by (intro ext) metis
    then show ?thesis using o throw(4) by (simp add: com')
  qed
  then show ?thesis using nofree by (simp add: owned_inv_def)
qed

lemma owned_inv_Free_lock:
  assumes "owned_inv c" and "lock_inv c" and "mt c = None" and "pcs c t = Free_lock ptr"
  shows "owned_inv (at t (Free_push ptr) (c\<lparr>mt := Some t\<rparr>))"
proof -
  let ?c' = "at t (Free_push ptr) (c\<lparr>mt := Some t\<rparr>)"
  let ?p = "cpool c" and ?h = "cheap c" and ?W = "will_hold c"
  have com: "committed c = (?p, ?h)" using assms(3) by (rule committed_unlocked)
  have o: "owns (connections ?p) (length ?h) ?W"
    using assms(1) by (simp add: owned_inv_def com)
  have "ptr \<noteq> None"
  proof
    assume "ptr = None"
    then have "pcs c t = Free_lock None" using assms(4) by simp
    then show False using assms(1) by (simp add: owned_inv_def)
  qed
  then obtain a where ptr: "ptr = Some a" by auto
  have wt: "?W t = Some a" by (simp add: will_hold_def assms(4) ptr)
  have "critical (Free_push ptr)" by (simp add: critical_def)
  then have com': "committed ?c' = (snd (FreeConnection ptr ?p), ?h)"
    using step_lock [OF assms(2,3), of "Free_push ptr" t] by (simp add: finish_Free_push)
  have others: "will_hold ?c' u = ?W u" if "u \<noteq> t" for u
    using that by (simp add: will_hold_def at_def)
  have "will_hold ?c' t = None" by (simp add: will_hold_def at_def)
  then have "will_hold ?c' = ?W(t := None)" using others by (intro ext) simp
  then have "owns (connections (fst (committed ?c'))) (length (snd (committed ?c')))
               (will_hold ?c')"
    using owns_give [OF o wt] by (simp add: com' [unfolded ptr] FreeConnection_eq ptr)
  moreover have "\<forall>u. pcs ?c' u \<noteq> Free_lock None"
    using assms(1) by (simp add: owned_inv_def at_def)
  ultimately show ?thesis by (simp add: owned_inv_def)
qed

lemma step_monitor:
  assumes "step t k c = Some c'" and "\<not> critical (pcs c t)"
    and "\<And>s. pcs c t \<noteq> Get_lock s" and "\<And>ptr. pcs c t \<noteq> Free_lock ptr"
  shows "holds (pcs c t) = None \<and>
         (c' = c \<or> (\<exists>l. c' = at t l c \<and> \<not> critical l \<and> holds l = None \<and> l \<noteq> Free_lock None))"
proof (cases "pcs c t")
  case Main_spin
  then show ?thesis using assms(1)
    by (auto simp: step_def critical_def holds_def split: if_splits)
next
  case (Main_inuse i)
  then show ?thesis using assms(1)
    by (auto simp: step_def critical_def holds_def split: if_splits)
next
  case (Main_alive i u)
  then show ?thesis using assms(1)
    by (auto simp: step_def critical_def holds_def split: if_splits)
next
  case (Main_size i u a)
  then show ?thesis using assms(1)
    by (auto simp: step_def critical_def holds_def split: if_splits)
next
  case (Main_assert1 i u a n)
  then show ?thesis using assms(1)
    by (auto simp: step_def critical_def holds_def split: if_splits)
next
  case (Main_assert2 i u a n)
  then show ?thesis using assms(1)
    by (auto simp: step_def critical_def holds_def split: if_splits)
qed (use assms in \<open>simp_all add: step_def critical_def\<close>)


lemma act_owned:
  assumes "act a c = Some c'" and "proper a c" and "lock_inv c" and "owned_inv c"
  shows "owned_inv c'"
proof (cases a)
  case (Run t k)
  then have s: "step t k c = Some c'" using assms(1) by simp
  show ?thesis
  proof (cases "critical (pcs c t)")
    case True
    show ?thesis
      using assms(4)
    proof (rule owned_inv_same)
      show "committed c' = committed c"
        using step_critical [OF s assms(3) True] by simp
      show "will_hold c' u = will_hold c u" for u
        using step_critical_holds [OF s assms(3) True, of u] by simp
      show "pcs c u = Free_lock None" if "pcs c' u = Free_lock None" for u
        using that step_critical_holds [OF s assms(3) True, of u] by simp
    qed
  next
    case False
    show ?thesis
    proof (cases "(\<exists>s. pcs c t = Get_lock s) \<or> (\<exists>ptr. pcs c t = Free_lock ptr)")
      case True
      then show ?thesis
      proof (elim disjE exE)
        fix s assume pc: "pcs c t = Get_lock s"
        then have "mt c = None" and "c' = at t (Get_wait s) (c\<lparr>mt := Some t\<rparr>)"
          using s by (auto simp: step_def split: if_splits)
        then show ?thesis using owned_inv_Get_lock [OF assms(4,3) _ pc] by simp
      next
        fix ptr assume pc: "pcs c t = Free_lock ptr"
        then have "mt c = None" and "c' = at t (Free_push ptr) (c\<lparr>mt := Some t\<rparr>)"
          using s by (auto simp: step_def split: if_splits)
        then show ?thesis using owned_inv_Free_lock [OF assms(4,3) _ pc] by simp
      qed
    next
      case no: False
      then have a: "\<And>s. pcs c t \<noteq> Get_lock s" and b: "\<And>ptr. pcs c t \<noteq> Free_lock ptr"
        by simp_all
      have h: "holds (pcs c t) = None"
        and alt: "c' = c \<or>
          (\<exists>l. c' = at t l c \<and> \<not> critical l \<and> holds l = None \<and> l \<noteq> Free_lock None)"
        using step_monitor [OF s False a b] by simp_all
      from alt show ?thesis
      proof
        assume "c' = c"
        then show ?thesis using assms(4) by simp
      next
        assume "\<exists>l. c' = at t l c \<and> \<not> critical l \<and> holds l = None \<and> l \<noteq> Free_lock None"
        then obtain l where c': "c' = at t l c" and l: "\<not> critical l" "holds l = None"
          "l \<noteq> Free_lock None" by blast
        show ?thesis
          unfolding c' using assms(4,3) False l(1) _ l(3)
          by (rule owned_inv_at) (simp add: h l(2))
      qed
    qed
  qed
next
  case (Spurious t)
  then obtain s where pc: "pcs c t = Get_blocked s"
    and c': "c' = at t (Get_lock s) (c\<lparr>cv := removeAll t (cv c)\<rparr>)"
    using assms(1) by (auto split: pc.splits)
  show ?thesis
    using assms(4,3)
    by (rule owned_inv_outside [where t = t and l = "Get_lock s"])
       (simp_all add: pc c' at_def critical_def holds_def)
next
  case (Call_GetConnection t s)
  then have pc: "pcs c t = Outside None" and c': "c' = at t (Get_lock s) c"
    using assms(1,2) by (auto split: pc.splits)
  show ?thesis
    unfolding c' using assms(4,3)
    by (rule owned_inv_at) (simp_all add: pc critical_def holds_def)
next
  case (Call_FreeConnection t)
  then obtain ptr where pc: "pcs c t = Outside ptr" and c': "c' = at t (Free_lock ptr) c"
    using assms(1) by (auto split: pc.splits)
  have "ptr \<noteq> None" using assms(2) Call_FreeConnection pc by auto
  then show ?thesis
    unfolding c' using assms(4,3)
    by (intro owned_inv_at) (simp_all add: pc critical_def holds_def)
next
  case (Call_monitor t)
  then have pc: "pcs c t = Outside None" and c': "c' = at t Main_spin c"
    using assms(1,2) by (auto split: pc.splits)
  show ?thesis
    unfolding c' using assms(4,3)
    by (rule owned_inv_at) (simp_all add: pc critical_def holds_def)
qed

lemma proper_acts_owned:
  assumes "proper_acts as c = Some c'" and "lock_inv c" and "owned_inv c"
  shows "lock_inv c' \<and> owned_inv c'"
  using assms
proof (induction as arbitrary: c)
  case Nil
  then show ?case by simp
next
  case (Cons a as)
  then obtain d where p: "proper a c" and d: "act a c = Some d"
    and rest: "proper_acts as d = Some c'"
    by (auto split: if_splits option.splits)
  have "lock_inv d" using act_refines [OF d Cons.prems(2)] by simp
  moreover have "owned_inv d" using d p Cons.prems(2,3) by (rule act_owned)
  ultimately show ?case using Cons.IH [OF rest] by simp
qed

lemma owned_inv_start: "owned_inv (start n)"
  by (simp add: owned_inv_def owns_def committed_def start_def will_hold_def
      ConnectionPool_init_def)

lemma threads_exclusive_ownership:
  assumes "proper_acts as (start n) = Some c" and "mt c = None"
  shows "owns (connections (cpool c)) (length (cheap c)) (\<lambda>t. holds (pcs c t))"
proof -
  have inv: "lock_inv c" and o: "owned_inv c"
    using proper_acts_owned [OF assms(1) lock_inv_start owned_inv_start] by simp_all
  have "\<not> critical (pcs c t)" for t using inv assms(2) by (simp add: lock_inv_def)
  then have "will_hold c = (\<lambda>t. holds (pcs c t))"
    by (intro ext) (simp add: will_hold_outside)
  then show ?thesis using o assms(2) by (simp add: owned_inv_def committed_unlocked)
qed

lemma proper_acts_acts: "proper_acts as c = Some c' \<Longrightarrow> acts as c = Some c'"
  by (induction as arbitrary: c) (auto split: if_splits option.splits)

lemma quiescent_pool_invariant:
  assumes "acts as (start n) = Some c" and "mt c = None"
  shows "pool_inv (cpool c) \<and> poolSize (cpool c) = n"
proof -
  obtain xs where xs: "(cpool c, cheap c) = exec_calls xs (ConnectionPool_init n, [])"
    using quiescent_pool_is_reached_by_calls [OF assms] by blast
  have "pool_inv (fst (exec_calls xs (ConnectionPool_init n, [])))"
    by (rule pool_inv_exec_calls) (simp add: pool_inv_init)
  moreover have "poolSize (fst (exec_calls xs (ConnectionPool_init n, []))) = n"
    by (simp add: ConnectionPool_init_def)
  ultimately show ?thesis by (simp add: xs [symmetric])
qed

text \<open>
  C5. However the statements of correctly used threads are interleaved, whenever no
  thread is inside a critical section (the mutex is free): the idle cache
  \<open>connections_\<close> has no duplicate and holds created connections only, no thread
  holds a connection that is in the cache, no two threads hold the same connection, and
  every created connection is in the cache or held by a thread.
\<close>

theorem exclusive_ownership:
  assumes "proper_acts as (start n) = Some c" and "mt c = None"
  shows "distinct (connections (cpool c)) \<and>
         set (connections (cpool c)) \<subseteq> Some ` {..<length (cheap c)} \<and>
         (\<forall>t. holds (pcs c t) \<notin> set (connections (cpool c))) \<and>
         (\<forall>t u. holds (pcs c t) = holds (pcs c u) \<longrightarrow> t = u \<or> holds (pcs c t) = None) \<and>
         (\<forall>t a. holds (pcs c t) = Some a \<longrightarrow> a < length (cheap c)) \<and>
         (\<forall>a<length (cheap c).
            Some a \<in> set (connections (cpool c)) \<or> (\<exists>t. holds (pcs c t) = Some a))"
  using threads_exclusive_ownership [OF assms] by (simp add: owns_def)

text \<open>An instance: on a pool of 2, threads 1 and 2 each obtain a connection and thread 1
  gives its connection back.\<close>

theorem exclusive_ownership_witness:
  "map_option
     (\<lambda>c. (mt c, connections (cpool c), length (cheap c), holds (pcs c 1), holds (pcs c 2)))
     (proper_acts
        [Call_GetConnection 1 ''0x16d713000'',
         Run 1 0, Run 1 0, Run 1 0, Run 1 0, Run 1 0, Run 1 0, Run 1 0,
         Call_GetConnection 2 ''0x16d687000'',
         Run 2 0, Run 2 0, Run 2 0, Run 2 0, Run 2 0, Run 2 0, Run 2 0,
         Call_FreeConnection 1, Run 1 0, Run 1 0, Run 1 0, Run 1 0] (start 2))
     = Some (None, [Some 0], 2, None, Some 1) \<and>
   owns [Some 0] 2
     (\<lambda>t. holds (pcs (the (proper_acts
        [Call_GetConnection 1 ''0x16d713000'',
         Run 1 0, Run 1 0, Run 1 0, Run 1 0, Run 1 0, Run 1 0, Run 1 0,
         Call_GetConnection 2 ''0x16d687000'',
         Run 2 0, Run 2 0, Run 2 0, Run 2 0, Run 2 0, Run 2 0, Run 2 0,
         Call_FreeConnection 1, Run 1 0, Run 1 0, Run 1 0, Run 1 0] (start 2))) t))"
proof -
  let ?S = "[Call_GetConnection 1 ''0x16d713000'',
         Run 1 0, Run 1 0, Run 1 0, Run 1 0, Run 1 0, Run 1 0, Run 1 0,
         Call_GetConnection 2 ''0x16d687000'',
         Run 2 0, Run 2 0, Run 2 0, Run 2 0, Run 2 0, Run 2 0, Run 2 0,
         Call_FreeConnection 1, Run 1 0, Run 1 0, Run 1 0, Run 1 0]"
  have run: "\<exists>c. proper_acts ?S (start 2) = Some c"
    by (simp add: start_def step_def at_def ConnectionPool_init_def stoi_eval make_shared_def
        move_ptr_def notify_one_def)
  then obtain c where c: "proper_acts ?S (start 2) = Some c" ..
  have vals: "map_option
     (\<lambda>c. (mt c, connections (cpool c), length (cheap c), holds (pcs c 1), holds (pcs c 2)))
     (proper_acts ?S (start 2)) = Some (None, [Some 0], 2, None, Some 1)"
    by (simp add: start_def step_def at_def ConnectionPool_init_def stoi_eval make_shared_def
        move_ptr_def notify_one_def holds_def)
  have m: "mt c = None" and cs: "connections (cpool c) = [Some 0]"
    and len: "length (cheap c) = 2"
    using vals unfolding c by simp_all
  have "owns [Some 0] 2 (\<lambda>t. holds (pcs c t))"
    using exclusive_ownership [OF c m] unfolding owns_def cs len by simp
  then show ?thesis using vals unfolding c by simp
qed

section \<open>Threads: one method run alone, and the monitoring loop\<close>

text \<open>
  A thread that finds the mutex free and runs \<open>GetConnection\<close> without being
  interrupted does what the function \<open>GetConnection\<close> says: it comes back with the
  handle after seven statements, leaves by the exception after five, or is waiting in
  \<open>cv_.wait\<close> after two.
\<close>

lemma GetConnection_thread:
  assumes "pcs c t = Get_lock s" and "mt c = None"
  shows "case GetConnection s (cpool c) (cheap c) of
           (Blocked, p', h') \<Rightarrow>
             acts [Run t k, Run t k] c = Some (at t (Get_blocked s) (c\<lparr>cv := cv c @ [t]\<rparr>))
         | (Threw e, p', h') \<Rightarrow>
             acts [Run t k, Run t k, Run t k, Run t k, Run t k] c
               = Some (at t (Unwound e) (c\<lparr>cpool := p', cheap := h'\<rparr>))
         | (Returned ptr, p', h') \<Rightarrow>
             acts [Run t k, Run t k, Run t k, Run t k, Run t k, Run t k, Run t k] c
               = Some (at t (Outside ptr) (c\<lparr>cpool := p', cheap := h'\<rparr>))"
proof (cases rule: GetConnection_cases [where p = "cpool c" and s = s and h = "cheap c"])
  case blocked
  then show ?thesis using assms by (simp add: step_def at_def)
next
  case reuse
  then show ?thesis using assms by (simp add: step_def at_def word_gt_0)
next
  case (grow i)
  then show ?thesis using assms by (simp add: step_def at_def word_gt_0 make_shared_def)
next
  case (throw e)
  then show ?thesis using assms by (simp add: step_def at_def word_gt_0)
qed

text \<open>
  C2 (what the code does at a failing interleaving). The accessors take no lock, so the
  monitoring loop of \<open>main\<close> (thread 0) reads the counters while thread 2 is between
  \<open>--free_\<close> (line 82) and \<open>++connectionsAlive_\<close> (line 85): on \<open>pool(5)\<close>, after
  thread 1 has created the first connection, \<open>ConnectionsInUse()\<close> is 2 and
  \<open>ConnectionsAlive()\<close> is 1 while thread 2 holds the mutex inside
  \<open>GetConnection\<close>, and \<open>assert(connectionsInUse <= connectionsAlive)\<close> at line 166
  fails.
\<close>

theorem monitor_observes_in_use_above_alive:
  "map_option
     (\<lambda>c. (pcs c 0, pcs c 2, mt c, ConnectionsInUse (cpool c), ConnectionsAlive (cpool c)))
     (acts [Call_GetConnection 1 ''0x16d713000'',
            Run 1 0, Run 1 0, Run 1 0, Run 1 0, Run 1 0, Run 1 0, Run 1 0,
            Call_monitor 0, Run 0 0,
            Call_GetConnection 2 ''0x16d687000'', Run 2 0, Run 2 0, Run 2 0,
            Run 0 0, Run 0 0, Run 0 0, Run 0 0] (start 5))
   = Some (Assert_failed 166, Get_test ''0x16d687000'', Some 2, 2, 1)"
  by (simp add: start_def step_def at_def ConnectionPool_init_def stoi_hex_thread_id stoi_eval
      make_shared_def ConnectionsAlive_def ConnectionsInUse_def PoolSize_def word_le_nat_alt)

text \<open>
  C8. A thread that calls \<open>FreeConnection(connection)\<close> and gets the mutex runs its
  four statements without waiting and returns. Afterwards the idle cache is the old one
  with the handle appended, \<open>free_\<close> is one more (as a \<open>size_t\<close>; as a number
  unless it was \<open>SIZE_MAX\<close>), \<open>connectionsAlive_\<close>, \<open>poolSize_\<close> and the store
  of objects are unchanged, and the mutex is free again. If no thread waits on the
  condition variable nothing else changes; if some do, exactly one of them (the one
  \<open>notify_one\<close> picks) leaves the wait and goes back to the lock, and every other
  thread stays where it was. This is what the function \<open>FreeConnection\<close> computes.
\<close>

theorem FreeConnection_pushes_frees_notifies_one:
  assumes "pcs c t = Free_lock connection" and "mt c = None"
  shows "\<exists>c'. acts [Run t k1, Run t k2, Run t k3, Run t k] c = Some c' \<and>
     pcs c' t = Outside None \<and>
     cpool c' = snd (FreeConnection connection (cpool c)) \<and>
     connections (cpool c') = connections (cpool c) @ [connection] \<and>
     free (cpool c') = free (cpool c) + 1 \<and>
     (free (cpool c) \<noteq> - 1 \<longrightarrow> unat (free (cpool c')) = Suc (unat (free (cpool c)))) \<and>
     connectionsAlive (cpool c') = connectionsAlive (cpool c) \<and>
     poolSize (cpool c') = poolSize (cpool c) \<and>
     cheap c' = cheap c \<and> mt c' = None \<and>
     (cv c = [] \<longrightarrow> cv c' = [] \<and> (\<forall>u. u \<noteq> t \<longrightarrow> pcs c' u = pcs c u)) \<and>
     (cv c \<noteq> [] \<longrightarrow>
        cv c' = take (k mod length (cv c)) (cv c) @ drop (Suc (k mod length (cv c))) (cv c) \<and>
        Suc (length (cv c')) = length (cv c) \<and>
        (cv c ! (k mod length (cv c)) \<noteq> t \<longrightarrow>
           pcs c' (cv c ! (k mod length (cv c)))
             = woken (pcs c (cv c ! (k mod length (cv c))))) \<and>
        (\<forall>u. u \<noteq> t \<longrightarrow> u \<noteq> cv c ! (k mod length (cv c)) \<longrightarrow> pcs c' u = pcs c u))"
proof -
  have inc: "free (cpool c) \<noteq> - 1 \<Longrightarrow> unat (free (cpool c) + 1) = Suc (unat (free (cpool c)))"
    by (metis add.commute unatSuc add_eq_0_iff)
  have len: "cv c \<noteq> [] \<Longrightarrow>
      Suc (length (take (k mod length (cv c)) (cv c) @ drop (Suc (k mod length (cv c))) (cv c)))
        = length (cv c)"
  proof -
    assume "cv c \<noteq> []"
    then have "k mod length (cv c) < length (cv c)" by simp
    then show ?thesis by (simp add: min_def)
  qed
  show ?thesis
    using assms inc len
    by (simp add: step_def at_def move_ptr_def notify_one_def FreeConnection_eq Let_def)
qed

text \<open>An instance: on a pool of 1, thread 1 gives back connection 0 while thread 2
  waits; thread 2 is woken, thread 3 is not touched.\<close>

theorem FreeConnection_pushes_frees_notifies_one_witness:
  "pcs \<lparr>cpool = \<lparr>connections = [], connectionsAlive = 1, free = 0, poolSize = 1\<rparr>,
         cheap = [\<lparr>conn_id = 0\<rparr>], mt = None, cv = [2],
         pcs = (\<lambda>u. Outside None)(1 := Free_lock (Some 0), 2 := Get_blocked ''0x16d687000'')\<rparr> 1 = Free_lock (Some 0) \<and>
   mt \<lparr>cpool = \<lparr>connections = [], connectionsAlive = 1, free = 0, poolSize = 1\<rparr>,
         cheap = [\<lparr>conn_id = 0\<rparr>], mt = None, cv = [2],
         pcs = (\<lambda>u. Outside None)(1 := Free_lock (Some 0), 2 := Get_blocked ''0x16d687000'')\<rparr> = None \<and>
   map_option (\<lambda>c. (cpool c, cheap c, mt c, cv c, pcs c 1, pcs c 2, pcs c 3))
     (acts [Run 1 0, Run 1 0, Run 1 0, Run 1 0] \<lparr>cpool = \<lparr>connections = [], connectionsAlive = 1, free = 0, poolSize = 1\<rparr>,
         cheap = [\<lparr>conn_id = 0\<rparr>], mt = None, cv = [2],
         pcs = (\<lambda>u. Outside None)(1 := Free_lock (Some 0), 2 := Get_blocked ''0x16d687000'')\<rparr>)
   = Some (\<lparr>connections = [Some 0], connectionsAlive = 1, free = 1, poolSize = 1\<rparr>,
           [\<lparr>conn_id = 0\<rparr>], None, [], Outside None, Get_lock ''0x16d687000'', Outside None)"
  using FreeConnection_pushes_frees_notifies_one
    [where c = "\<lparr>cpool = \<lparr>connections = [], connectionsAlive = 1, free = 0, poolSize = 1\<rparr>,
         cheap = [\<lparr>conn_id = 0\<rparr>], mt = None, cv = [2],
         pcs = (\<lambda>u. Outside None)(1 := Free_lock (Some 0), 2 := Get_blocked ''0x16d687000'')\<rparr>"
      and t = 1 and connection = "Some 0" and ?k1.0 = 0 and ?k2.0 = 0 and ?k3.0 = 0 and k = 0]
  by (auto simp: woken_def FreeConnection_eq)

end
